theory Spec2Isabelle
  imports Complex_Main "HOL-Library.Word"
begin

section \<open>Data model of libs/ardour/triggerbox\<close>

text \<open>
  The enumerations of \<^verbatim>\<open>ardour/triggerbox.h\<close>. \<^verbatim>\<open>Trigger::State\<close> has the value
  \<^verbatim>\<open>None = 0\<close>, written \<open>None_State\<close> here because \<open>None\<close> is the constructor of
  \<open>option\<close>. The source compares states by their integer value (\<^verbatim>\<open>_state >= Running\<close>),
  which \<open>State_value\<close> gives.
\<close>

datatype State = None_State | Stopped | WaitingToStart | Running | WaitingForRetrigger
  | WaitingToStop | Stopping

fun State_value :: "State \<Rightarrow> nat" where
  "State_value None_State = 0"
| "State_value Stopped = 1"
| "State_value WaitingToStart = 2"
| "State_value Running = 3"
| "State_value WaitingForRetrigger = 4"
| "State_value WaitingToStop = 5"
| "State_value Stopping = 6"

datatype LaunchStyle = OneShot | Gate | Toggle | Repeat

datatype FollowAction = Stop | Again | QueuedTrigger | NextTrigger | PrevTrigger
  | FirstTrigger | LastTrigger | AnyTrigger | OtherTrigger

datatype RunType = RunEnd | RunStart | RunAll | RunNone

text \<open>
  What ends a call other than a return: a failed \<^verbatim>\<open>assert\<close>, \<^verbatim>\<open>abort ()\<close>, a null
  pointer that is dereferenced, a vector read past its end and a remainder by zero.
  A call that can end so returns \<open>fault + 'a\<close>.
\<close>

datatype fault = AssertionFailed | Abort | NullDereference | OutOfRange | DivisionByZero

text \<open>\<^verbatim>\<open>Temporal::BBT_Offset\<close>: three signed fields.\<close>

record BBT_Offset =
  bars :: int
  beats :: int
  ticks :: int

text \<open>
  What the code asks of a \<^verbatim>\<open>Region\<close> (an \<^verbatim>\<open>AudioRegion\<close> when \<open>is_audio\<close>):
  its id, name, length in samples, channel count, and \<^verbatim>\<open>read\<close>, which fills one
  channel or throws (\<open>None\<close>).
\<close>

type_synonym Sample = real

record Region =
  region_id :: nat
  region_name :: string
  is_audio :: bool
  length_samples :: int
  n_channels :: nat
  read :: "nat \<Rightarrow> Sample list option"

text \<open>
  \<^verbatim>\<open>Trigger\<close> and its only subclass \<^verbatim>\<open>AudioTrigger\<close> as one record; a field
  \<^verbatim>\<open>_x\<close> of the source is \<open>x\<close> here. The atomic counters \<^verbatim>\<open>std::atomic<int>\<close>
  are 32-bit words (\<^verbatim>\<open>fetch_add\<close> and \<^verbatim>\<open>fetch_sub\<close> wrap). The sample counts and
  positions \<^verbatim>\<open>samplecnt_t\<close>, \<^verbatim>\<open>samplepos_t\<close> are 64-bit signed in the source and
  \<open>int\<close> here: their overflow is not modelled. \<^verbatim>\<open>Temporal::Beats\<close> is read as an
  integer of ticks. The two-element array \<^verbatim>\<open>_follow_action\<close> is two fields.
\<close>

record AudioTrigger =
  state :: State
  requested_state :: State
  bang :: "32 word"
  unbang :: "32 word"
  index :: nat
  launch_style :: LaunchStyle
  follow_action_0 :: FollowAction
  follow_action_1 :: FollowAction
  follow_action_probability :: int
  region :: "Region option"
  quantization :: BBT_Offset
  legato :: bool
  name :: string
  bang_samples :: int
  bang_beats :: int
  data :: "Sample list list"
  read_index :: int
  data_length :: int
  start_offset :: int
  legato_offset :: int
  usable_length :: int
  last_sample :: int

text \<open>
  Modelled from the spec: \<^verbatim>\<open>PBD::RingBuffer\<close> (pbd/ringbuffer.h is not among the
  sources) is a bounded first-in first-out queue; a write to a full queue is dropped,
  \<^verbatim>\<open>reset\<close> empties it, \<^verbatim>\<open>read\<close> takes the oldest element and the read vector shows
  it without taking it.
\<close>

record 'a RingBuffer =
  capacity :: nat
  items :: "'a list"

definition RingBuffer :: "nat \<Rightarrow> 'a RingBuffer" where
  "RingBuffer n = \<lparr>capacity = n, items = []\<rparr>"

definition rb_write :: "'a RingBuffer \<Rightarrow> 'a \<Rightarrow> 'a RingBuffer" where
  "rb_write q x = (if length (items q) < capacity q then q\<lparr>items := items q @ [x]\<rparr> else q)"

definition rb_reset :: "'a RingBuffer \<Rightarrow> 'a RingBuffer" where
  "rb_reset q = q\<lparr>items := []\<rparr>"

definition rb_read_space :: "'a RingBuffer \<Rightarrow> nat" where
  "rb_read_space q = length (items q)"

definition rb_read :: "'a RingBuffer \<Rightarrow> 'a option \<times> 'a RingBuffer" where
  "rb_read q = (case items q of [] \<Rightarrow> (None, q) | x # xs \<Rightarrow> (Some x, q\<lparr>items := xs\<rparr>))"

definition rb_peek :: "'a RingBuffer \<Rightarrow> 'a option" where
  "rb_peek q = (case items q of [] \<Rightarrow> None | x # xs \<Rightarrow> Some x)"

text \<open>
  \<^verbatim>\<open>TriggerBox\<close>. A \<^verbatim>\<open>Trigger*\<close> is the position of the trigger in
  \<^verbatim>\<open>all_triggers\<close> (every trigger the box handles is created into that vector), the
  null pointer is \<open>None\<close>. The random number generator \<^verbatim>\<open>PBD::PCGRand\<close> is not among
  the sources: its state is the type parameter \<open>'g\<close>, and the functions that draw
  numbers take \<^verbatim>\<open>rand\<close> as a parameter.
\<close>

datatype DataType = AUDIO | MIDI

record 'g TriggerBox =
  data_type :: DataType
  all_triggers :: "AudioTrigger list"
  explicit_queue :: "nat RingBuffer"
  implicit_queue :: "nat RingBuffer"
  currently_playing :: "nat option"
  stop_all_requested :: bool
  midi_trigger_map :: "nat \<rightharpoonup> nat"
  pcg :: 'g

section \<open>Trigger\<close>

text \<open>
  The constructors \<^verbatim>\<open>Trigger::Trigger\<close> and \<^verbatim>\<open>AudioTrigger::AudioTrigger\<close>. The
  source leaves \<^verbatim>\<open>bang_samples\<close> uninitialised; it is 0 here.
\<close>

definition new_AudioTrigger :: "nat \<Rightarrow> AudioTrigger" where
  "new_AudioTrigger n =
     \<lparr>state = Stopped, requested_state = None_State, bang = 0, unbang = 0, index = n,
      launch_style = Toggle, follow_action_0 = NextTrigger, follow_action_1 = Stop,
      follow_action_probability = 100, region = None,
      quantization = \<lparr>bars = 0, beats = 1, ticks = 0\<rparr>, legato = True, name = [],
      bang_samples = 0, bang_beats = 0, data = [], read_index = 0, data_length = 0,
      start_offset = 0, legato_offset = 0, usable_length = 0, last_sample = 0\<rparr>"

text \<open>
  The constructor \<^verbatim>\<open>TriggerBox::TriggerBox\<close>; \<open>g\<close> is the initial state of the
  generator. The rings \<^verbatim>\<open>_bang_queue\<close> and \<^verbatim>\<open>_unbang_queue\<close> are never used
  by the source and are left out.
\<close>

definition default_triggers_per_box :: nat where
  "default_triggers_per_box = 8"

definition new_TriggerBox :: "DataType \<Rightarrow> 'g \<Rightarrow> 'g TriggerBox" where
  "new_TriggerBox dt g =
     \<lparr>data_type = dt,
      all_triggers = (if dt = AUDIO then map new_AudioTrigger [0..<default_triggers_per_box] else []),
      explicit_queue = RingBuffer 64,
      implicit_queue = RingBuffer 64,
      currently_playing = None,
      stop_all_requested = False,
      midi_trigger_map = [60 \<mapsto> 0, 61 \<mapsto> 1, 62 \<mapsto> 2, 63 \<mapsto> 3, 64 \<mapsto> 4, 65 \<mapsto> 5,
        66 \<mapsto> 6, 67 \<mapsto> 7, 68 \<mapsto> 8, 69 \<mapsto> 9],
      pcg = g\<rparr>"

definition Trigger_bang :: "AudioTrigger \<Rightarrow> AudioTrigger" where
  "Trigger_bang t = t\<lparr>bang := bang t + 1\<rparr>"

definition Trigger_unbang :: "AudioTrigger \<Rightarrow> AudioTrigger" where
  "Trigger_unbang t = t\<lparr>unbang := unbang t + 1\<rparr>"

definition active :: "AudioTrigger \<Rightarrow> bool" where
  "active t = (State_value (state t) \<ge> State_value Running)"

definition follow_action :: "AudioTrigger \<Rightarrow> nat \<Rightarrow> FollowAction" where
  "follow_action t n = (if n = 0 then follow_action_0 t else follow_action_1 t)"

definition Trigger_request_state :: "State \<Rightarrow> AudioTrigger \<Rightarrow> AudioTrigger" where
  "Trigger_request_state s t = t\<lparr>requested_state := s\<rparr>"

definition Trigger_stop :: "AudioTrigger \<Rightarrow> AudioTrigger" where
  "Trigger_stop t = Trigger_request_state Stopped t"

definition Trigger_startup :: "AudioTrigger \<Rightarrow> AudioTrigger" where
  "Trigger_startup t = t\<lparr>state := WaitingToStart\<rparr>"

definition Trigger_jump_start :: "AudioTrigger \<Rightarrow> AudioTrigger" where
  "Trigger_jump_start t = t\<lparr>state := Running\<rparr>"

definition Trigger_jump_stop :: "AudioTrigger \<Rightarrow> AudioTrigger" where
  "Trigger_jump_stop t = t\<lparr>state := Stopped\<rparr>"

section \<open>The queues of the box\<close>

text \<open>\<open>on_trigger b i f\<close> is a method call \<^verbatim>\<open>all_triggers[i]->f ()\<close> that changes the trigger.\<close>

definition on_trigger :: "'g TriggerBox \<Rightarrow> nat \<Rightarrow> (AudioTrigger \<Rightarrow> AudioTrigger) \<Rightarrow> 'g TriggerBox" where
  "on_trigger b i f = b\<lparr>all_triggers := (all_triggers b)[i := f (all_triggers b ! i)]\<rparr>"

definition clear_implicit :: "'g TriggerBox \<Rightarrow> 'g TriggerBox" where
  "clear_implicit b = b\<lparr>implicit_queue := rb_reset (implicit_queue b)\<rparr>"

definition queue_explict :: "'g TriggerBox \<Rightarrow> nat \<Rightarrow> 'g TriggerBox" where
  "queue_explict b t =
     (let b1 = b\<lparr>explicit_queue := rb_write (explicit_queue b) t\<rparr>;
          b2 = b1\<lparr>implicit_queue := rb_reset (implicit_queue b1)\<rparr>
      in case currently_playing b2 of
           None \<Rightarrow> b2
         | Some c \<Rightarrow> on_trigger b2 c Trigger_unbang)"

definition queue_implicit :: "'g TriggerBox \<Rightarrow> nat \<Rightarrow> 'g TriggerBox" where
  "queue_implicit b t =
     (if rb_read_space (explicit_queue b) = 0
      then b\<lparr>implicit_queue := rb_write (implicit_queue b) t\<rparr> else b)"

definition peek_next_trigger :: "'g TriggerBox \<Rightarrow> nat option" where
  "peek_next_trigger b =
     (case rb_peek (explicit_queue b) of
        Some t \<Rightarrow> Some t
      | None \<Rightarrow> rb_peek (implicit_queue b))"

definition get_next_trigger :: "'g TriggerBox \<Rightarrow> nat option \<times> 'g TriggerBox" where
  "get_next_trigger b =
     (case rb_read (explicit_queue b) of
        (Some r, q) \<Rightarrow> (Some r, b\<lparr>explicit_queue := q\<rparr>)
      | (None, _) \<Rightarrow>
          (case rb_read (implicit_queue b) of
             (Some r, q) \<Rightarrow> (Some r, b\<lparr>implicit_queue := q\<rparr>)
           | (None, _) \<Rightarrow> (None, b)))"

section \<open>Trigger::process_state_requests\<close>

text \<open>
  The method runs on the trigger at position \<open>i\<close> of its box (\<^verbatim>\<open>this\<close>); a position
  outside the vector denotes no trigger. \<^verbatim>\<open>PropertyChanged\<close> notifies the user
  interface and is left out throughout.
\<close>

definition handle_requested_state :: "'g TriggerBox \<Rightarrow> nat \<Rightarrow> 'g TriggerBox" where
  "handle_requested_state b i =
     (let new_state = requested_state (all_triggers b ! i);
          b1 = on_trigger b i (\<lambda>t. t\<lparr>requested_state := None_State\<rparr>)
      in if new_state \<noteq> None_State \<and> new_state \<noteq> state (all_triggers b1 ! i)
         then (case new_state of
                 Stopped \<Rightarrow>
                   (if state (all_triggers b1 ! i) \<noteq> WaitingToStop
                    then on_trigger b1 i (\<lambda>t. t\<lparr>state := WaitingToStop\<rparr>) else b1)
               | Running \<Rightarrow> queue_explict b1 i
               | _ \<Rightarrow> b1)
         else b1)"

text \<open>One pass of the first \<^verbatim>\<open>while\<close> loop: one bang is taken and handled.\<close>

definition handle_bang :: "'g TriggerBox \<Rightarrow> nat \<Rightarrow> fault + 'g TriggerBox" where
  "handle_bang b i =
     (let b1 = on_trigger b i (\<lambda>t. t\<lparr>bang := bang t - 1\<rparr>)
      in case state (all_triggers b1 ! i) of
           None_State \<Rightarrow> Inl Abort
         | Running \<Rightarrow>
             (case launch_style (all_triggers b1 ! i) of
                OneShot \<Rightarrow> Inr (on_trigger b1 i (\<lambda>t. t\<lparr>state := WaitingForRetrigger\<rparr>))
              | _ \<Rightarrow> Inr (clear_implicit (on_trigger b1 i (\<lambda>t. t\<lparr>state := WaitingToStop\<rparr>))))
         | Stopped \<Rightarrow> Inr (queue_explict b1 i)
         | _ \<Rightarrow> Inr b1)"

text \<open>One pass of the second \<^verbatim>\<open>while\<close> loop: one unbang is taken and handled.\<close>

definition handle_unbang :: "'g TriggerBox \<Rightarrow> nat \<Rightarrow> 'g TriggerBox" where
  "handle_unbang b i =
     (let b1 = on_trigger b i (\<lambda>t. t\<lparr>unbang := unbang t - 1\<rparr>)
      in if launch_style (all_triggers b1 ! i) = Gate \<or> launch_style (all_triggers b1 ! i) = Repeat
         then (case state (all_triggers b1 ! i) of
                 Running \<Rightarrow> on_trigger b1 i (\<lambda>t. t\<lparr>state := WaitingToStop\<rparr>)
               | _ \<Rightarrow> on_trigger b1 i (\<lambda>t. t\<lparr>state := Stopped\<rparr>))
         else b1)"

lemma length_on_trigger [simp]: "length (all_triggers (on_trigger b i f)) = length (all_triggers b)"
  by (simp add: on_trigger_def)

lemma nth_on_trigger_same [simp]:
  "i < length (all_triggers b) \<Longrightarrow> all_triggers (on_trigger b i f) ! i = f (all_triggers b ! i)"
  by (simp add: on_trigger_def)

lemma nth_on_trigger:
  "i < length (all_triggers b) \<Longrightarrow>
   all_triggers (on_trigger b j f) ! i = (if i = j then f (all_triggers b ! i) else all_triggers b ! i)"
  by (simp add: on_trigger_def nth_list_update)

lemma length_queue_explict [simp]: "length (all_triggers (queue_explict b t)) = length (all_triggers b)"
  by (simp add: queue_explict_def Let_def split: option.splits)

lemma bang_queue_explict [simp]:
  "i < length (all_triggers b) \<Longrightarrow> bang (all_triggers (queue_explict b t) ! i) = bang (all_triggers b ! i)"
  by (simp add: queue_explict_def Let_def nth_on_trigger Trigger_unbang_def split: option.splits)

lemma handle_bang_length:
  "handle_bang b i = Inr b' \<Longrightarrow> length (all_triggers b') = length (all_triggers b)"
  by (auto simp: handle_bang_def Let_def clear_implicit_def split: State.splits LaunchStyle.splits)

lemma handle_bang_bang:
  "i < length (all_triggers b) \<Longrightarrow> handle_bang b i = Inr b' \<Longrightarrow>
   bang (all_triggers b' ! i) = bang (all_triggers b ! i) - 1"
  by (auto simp: handle_bang_def Let_def clear_implicit_def split: State.splits LaunchStyle.splits)

lemma handle_unbang_length [simp]:
  "length (all_triggers (handle_unbang b i)) = length (all_triggers b)"
  by (simp add: handle_unbang_def Let_def split: State.splits)

lemma handle_unbang_unbang:
  "i < length (all_triggers b) \<Longrightarrow>
   unbang (all_triggers (handle_unbang b i) ! i) = unbang (all_triggers b ! i) - 1"
  by (simp add: handle_unbang_def Let_def split: State.splits)

lemma unat_pred_less: "(w :: 32 word) \<noteq> 0 \<Longrightarrow> unat (w - 1) < unat w"
  by (simp add: unat_minus_one unat_gt_0)

function bang_loop :: "'g TriggerBox \<Rightarrow> nat \<Rightarrow> fault + 'g TriggerBox" where
  "bang_loop b i =
     (if i \<ge> length (all_triggers b) then Inl NullDereference
      else if bang (all_triggers b ! i) = 0 then Inr b
      else (case handle_bang b i of
              Inl e \<Rightarrow> Inl e
            | Inr b' \<Rightarrow> bang_loop b' i))"
  by pat_completeness auto
termination
proof (relation "measure (\<lambda>(b, i). unat (bang (all_triggers b ! i)))")
  fix b :: "'g TriggerBox" and i b'
  assume "\<not> length (all_triggers b) \<le> i" and "bang (all_triggers b ! i) \<noteq> 0"
    and "handle_bang b i = Inr b'"
  then have "bang (all_triggers b' ! i) = bang (all_triggers b ! i) - 1"
    by (simp add: handle_bang_bang)
  with \<open>bang (all_triggers b ! i) \<noteq> 0\<close>
  show "((b', i), (b, i)) \<in> measure (\<lambda>(b, i). unat (bang (all_triggers b ! i)))"
    by (simp add: unat_pred_less)
qed simp

function unbang_loop :: "'g TriggerBox \<Rightarrow> nat \<Rightarrow> fault + 'g TriggerBox" where
  "unbang_loop b i =
     (if i \<ge> length (all_triggers b) then Inl NullDereference
      else if unbang (all_triggers b ! i) = 0 then Inr b
      else unbang_loop (handle_unbang b i) i)"
  by pat_completeness auto
termination
proof (relation "measure (\<lambda>(b, i). unat (unbang (all_triggers b ! i)))")
  fix b :: "'g TriggerBox" and i
  assume "\<not> length (all_triggers b) \<le> i" and "unbang (all_triggers b ! i) \<noteq> 0"
  then show "((handle_unbang b i, i), (b, i)) \<in> measure (\<lambda>(b, i). unat (unbang (all_triggers b ! i)))"
    by (simp add: handle_unbang_unbang unat_pred_less)
qed simp

definition process_state_requests :: "'g TriggerBox \<Rightarrow> nat \<Rightarrow> fault + 'g TriggerBox" where
  "process_state_requests b i =
     (if i \<ge> length (all_triggers b) then Inl NullDereference
      else (case bang_loop (handle_requested_state b i) i of
              Inl e \<Rightarrow> Inl e
            | Inr b' \<Rightarrow> unbang_loop b' i))"

section \<open>AudioTrigger: retrigger and load_data\<close>

definition AudioTrigger_retrigger :: "AudioTrigger \<Rightarrow> AudioTrigger" where
  "AudioTrigger_retrigger t = t\<lparr>read_index := start_offset t + legato_offset t, legato_offset := 0\<rparr>"

definition AudioTrigger_startup :: "AudioTrigger \<Rightarrow> AudioTrigger" where
  "AudioTrigger_startup t = AudioTrigger_retrigger (Trigger_startup t)"

definition AudioTrigger_jump_start :: "AudioTrigger \<Rightarrow> AudioTrigger" where
  "AudioTrigger_jump_start t = AudioTrigger_retrigger (Trigger_jump_start t)"

definition AudioTrigger_jump_stop :: "AudioTrigger \<Rightarrow> AudioTrigger" where
  "AudioTrigger_jump_stop t = AudioTrigger_retrigger (Trigger_jump_stop t)"

definition set_legato_offset :: "int \<Rightarrow> AudioTrigger \<Rightarrow> AudioTrigger" where
  "set_legato_offset offset t = t\<lparr>legato_offset := offset\<rparr>"

definition current_pos :: "AudioTrigger \<Rightarrow> int" where
  "current_pos t = read_index t"

definition set_name :: "string \<Rightarrow> AudioTrigger \<Rightarrow> AudioTrigger" where
  "set_name str t = t\<lparr>name := str\<rparr>"

definition drop_data :: "AudioTrigger \<Rightarrow> AudioTrigger" where
  "drop_data t = t\<lparr>data := []\<rparr>"

text \<open>
  The loop of \<^verbatim>\<open>load_data\<close> over the channels: each pass appends the samples that
  \<^verbatim>\<open>ar->read\<close> delivers for the channel; \<open>None\<close> is the exception that leaves the
  \<^verbatim>\<open>try\<close> block.
\<close>

primrec read_channels :: "Region \<Rightarrow> nat list \<Rightarrow> AudioTrigger \<Rightarrow> AudioTrigger option" where
  "read_channels ar [] t = Some t"
| "read_channels ar (n # ns) t =
     (case read ar n of
        None \<Rightarrow> None
      | Some samples \<Rightarrow> read_channels ar ns (t\<lparr>data := data t @ [samples]\<rparr>))"

definition load_data :: "Region \<Rightarrow> AudioTrigger \<Rightarrow> int \<times> AudioTrigger" where
  "load_data ar t =
     (let nchans = n_channels ar;
          t1 = t\<lparr>data_length := length_samples ar\<rparr>;
          t2 = (if usable_length t1 = 0 \<or> usable_length t1 > data_length t1
                then (let t' = t1\<lparr>usable_length := data_length t1\<rparr>
                      in t'\<lparr>last_sample := start_offset t' + usable_length t'\<rparr>)
                else t1);
          t3 = drop_data t2
      in case read_channels ar [0..<nchans] t3 of
           Some t4 \<Rightarrow> (0, set_name (region_name ar) t4)
         | None \<Rightarrow> (- 1, drop_data t3))"

section \<open>Saving and restoring a trigger\<close>

text \<open>
  Modelled from the spec: \<^verbatim>\<open>XMLNode\<close> (pbd/xml++.h is not among the sources) is a
  named node of the persisted tree carrying properties by name. \<^verbatim>\<open>set_property\<close>
  stores a value under a name; \<^verbatim>\<open>get_property\<close> reads a name into a variable of the
  value's type and leaves the variable as it was when the name is absent or holds a
  value of another type. The conversion of each value to and from its text form is
  taken to be lossless, so a property holds the value itself.
\<close>

datatype PropertyValue = BoolValue bool | LaunchStyleValue LaunchStyle
  | FollowActionValue FollowAction | BBT_OffsetValue BBT_Offset | StringValue string
  | UIntValue nat | IDValue nat | TimeposValue int

record XMLNode =
  node_name :: string
  properties :: "string \<rightharpoonup> PropertyValue"

definition new_XMLNode :: "string \<Rightarrow> XMLNode" where
  "new_XMLNode n = \<lparr>node_name = n, properties = Map.empty\<rparr>"

definition set_property :: "string \<Rightarrow> PropertyValue \<Rightarrow> XMLNode \<Rightarrow> XMLNode" where
  "set_property k v node = node\<lparr>properties := (properties node)(k \<mapsto> v)\<rparr>"

definition get_property_bool :: "XMLNode \<Rightarrow> string \<Rightarrow> bool \<Rightarrow> bool" where
  "get_property_bool node k var = (case properties node k of Some (BoolValue v) \<Rightarrow> v | _ \<Rightarrow> var)"

definition get_property_LaunchStyle :: "XMLNode \<Rightarrow> string \<Rightarrow> LaunchStyle \<Rightarrow> LaunchStyle" where
  "get_property_LaunchStyle node k var =
     (case properties node k of Some (LaunchStyleValue v) \<Rightarrow> v | _ \<Rightarrow> var)"

definition get_property_FollowAction :: "XMLNode \<Rightarrow> string \<Rightarrow> FollowAction \<Rightarrow> FollowAction" where
  "get_property_FollowAction node k var =
     (case properties node k of Some (FollowActionValue v) \<Rightarrow> v | _ \<Rightarrow> var)"

definition get_property_BBT_Offset :: "XMLNode \<Rightarrow> string \<Rightarrow> BBT_Offset \<Rightarrow> BBT_Offset" where
  "get_property_BBT_Offset node k var =
     (case properties node k of Some (BBT_OffsetValue v) \<Rightarrow> v | _ \<Rightarrow> var)"

definition get_property_string :: "XMLNode \<Rightarrow> string \<Rightarrow> string \<Rightarrow> string" where
  "get_property_string node k var = (case properties node k of Some (StringValue v) \<Rightarrow> v | _ \<Rightarrow> var)"

definition get_property_uint :: "XMLNode \<Rightarrow> string \<Rightarrow> nat \<Rightarrow> nat" where
  "get_property_uint node k var = (case properties node k of Some (UIntValue v) \<Rightarrow> v | _ \<Rightarrow> var)"

definition get_property_timepos :: "XMLNode \<Rightarrow> string \<Rightarrow> int \<Rightarrow> int" where
  "get_property_timepos node k var = (case properties node k of Some (TimeposValue v) \<Rightarrow> v | _ \<Rightarrow> var)"

text \<open>
  \<^verbatim>\<open>PBD::ID rid\<close> is constructed as a new id, which names no region; so the id read
  from the node is \<open>None\<close> when the node has no such property.
\<close>

definition get_property_ID :: "XMLNode \<Rightarrow> string \<Rightarrow> nat option" where
  "get_property_ID node k = (case properties node k of Some (IDValue v) \<Rightarrow> Some v | _ \<Rightarrow> None)"

definition Trigger_get_state :: "AudioTrigger \<Rightarrow> XMLNode" where
  "Trigger_get_state t =
     (let node = new_XMLNode ''Trigger'';
          node = set_property ''legato'' (BoolValue (legato t)) node;
          node = set_property ''launch-style'' (LaunchStyleValue (launch_style t)) node;
          node = set_property ''follow-action-0'' (FollowActionValue (follow_action_0 t)) node;
          node = set_property ''follow-action-1'' (FollowActionValue (follow_action_1 t)) node;
          node = set_property ''quantization'' (BBT_OffsetValue (quantization t)) node;
          node = set_property ''name'' (StringValue (name t)) node;
          node = set_property ''index'' (UIntValue (index t)) node
      in case region t of
           Some r \<Rightarrow> set_property ''region'' (IDValue (region_id r)) node
         | None \<Rightarrow> node)"

text \<open>
  \<^verbatim>\<open>Trigger::set_state\<close>. \<^verbatim>\<open>RegionFactory::region_by_id\<close> is the parameter
  \<open>region_by_id\<close>, and \<^verbatim>\<open>set_region\<close>, a virtual method whose result is not looked
  at here, is the parameter \<open>set_region\<close>. The method returns 0 on every path.
\<close>

definition Trigger_set_state ::
  "(nat \<Rightarrow> Region option) \<Rightarrow> (Region \<Rightarrow> AudioTrigger \<Rightarrow> AudioTrigger) \<Rightarrow> XMLNode \<Rightarrow> AudioTrigger
   \<Rightarrow> int \<times> AudioTrigger" where
  "Trigger_set_state region_by_id set_region node t =
     (let t = t\<lparr>legato := get_property_bool node ''legato'' (legato t)\<rparr>;
          t = t\<lparr>launch_style := get_property_LaunchStyle node ''launch-style'' (launch_style t)\<rparr>;
          t = t\<lparr>follow_action_0 := get_property_FollowAction node ''follow-action-0'' (follow_action_0 t)\<rparr>;
          t = t\<lparr>follow_action_1 := get_property_FollowAction node ''follow-action-1'' (follow_action_1 t)\<rparr>;
          t = t\<lparr>quantization := get_property_BBT_Offset node ''quantization'' (quantization t)\<rparr>;
          t = t\<lparr>name := get_property_string node ''name'' (name t)\<rparr>;
          t = t\<lparr>index := get_property_uint node ''index'' (index t)\<rparr>;
          r = (case get_property_ID node ''region'' of Some rid \<Rightarrow> region_by_id rid | None \<Rightarrow> None)
      in case r of
           Some r \<Rightarrow> (0, set_region r t)
         | None \<Rightarrow> (0, t))"

definition AudioTrigger_get_state :: "AudioTrigger \<Rightarrow> XMLNode" where
  "AudioTrigger_get_state t =
     (let node = Trigger_get_state t;
          node = set_property ''start'' (TimeposValue (start_offset t)) node;
          node = set_property ''length'' (TimeposValue (usable_length t)) node
      in node)"

text \<open>
  \<^verbatim>\<open>AudioTrigger::set_state\<close>. The test \<^verbatim>\<open>if (!Trigger::set_state (node, version))\<close>
  holds when the call returns 0.
\<close>

definition AudioTrigger_set_state ::
  "(nat \<Rightarrow> Region option) \<Rightarrow> (Region \<Rightarrow> AudioTrigger \<Rightarrow> AudioTrigger) \<Rightarrow> XMLNode \<Rightarrow> AudioTrigger
   \<Rightarrow> int \<times> AudioTrigger" where
  "AudioTrigger_set_state region_by_id set_region node t =
     (let tp = 0;
          (rc, t) = Trigger_set_state region_by_id set_region node t
      in if rc = 0 then (- 1, t)
         else (let tp = get_property_timepos node ''start'' tp;
                   t = t\<lparr>start_offset := tp\<rparr>;
                   tp = get_property_timepos node ''length'' tp;
                   t = t\<lparr>usable_length := tp\<rparr>;
                   t = t\<lparr>last_sample := start_offset t + usable_length t\<rparr>
               in (0, t)))"

section \<open>MIDI\<close>

text \<open>
  What the code asks of an event of a \<^verbatim>\<open>MidiBuffer\<close>: whether it is a note event, a
  note-on or a note-off, and its note number \<^verbatim>\<open>note ()\<close> (a \<^verbatim>\<open>uint8_t\<close>).
\<close>

record MidiEvent =
  is_note :: bool
  is_note_on :: bool
  is_note_off :: bool
  note_number :: nat

text \<open>
  The body of the inner loop of \<^verbatim>\<open>process_midi_trigger_requests\<close> for one event.
  \<open>t\<close> is the pointer \<^verbatim>\<open>Trigger* t\<close>, null (\<open>None\<close>) unless the map has the note. The
  vector holds no null pointer, so the test \<^verbatim>\<open>if (!t)\<close> never holds.
\<close>

definition process_midi_event :: "'g TriggerBox \<Rightarrow> MidiEvent \<Rightarrow> fault + 'g TriggerBox" where
  "process_midi_event b ev =
     (if \<not> is_note ev then Inr b
      else (case (case midi_trigger_map b (note_number ev) of
                    Some slot \<Rightarrow>
                      (if slot < length (all_triggers b) then Inr (Some slot) else Inl AssertionFailed)
                  | None \<Rightarrow> Inr None) of
              Inl e \<Rightarrow> Inl e
            | Inr t \<Rightarrow>
                (if is_note_on ev then
                   (case t of None \<Rightarrow> Inl NullDereference | Some s \<Rightarrow> Inr (on_trigger b s Trigger_bang))
                 else if is_note_off ev then
                   (case t of None \<Rightarrow> Inl NullDereference | Some s \<Rightarrow> Inr (on_trigger b s Trigger_unbang))
                 else Inr b)))"

fun process_midi_buffer :: "'g TriggerBox \<Rightarrow> MidiEvent list \<Rightarrow> fault + 'g TriggerBox" where
  "process_midi_buffer b [] = Inr b"
| "process_midi_buffer b (ev # evs) =
     (case process_midi_event b ev of
        Inl e \<Rightarrow> Inl e
      | Inr b' \<Rightarrow> process_midi_buffer b' evs)"

fun process_midi_trigger_requests :: "'g TriggerBox \<Rightarrow> MidiEvent list list \<Rightarrow> fault + 'g TriggerBox" where
  "process_midi_trigger_requests b [] = Inr b"
| "process_midi_trigger_requests b (mb # mbs) =
     (case process_midi_buffer b mb of
        Inl e \<Rightarrow> Inl e
      | Inr b' \<Rightarrow> process_midi_trigger_requests b' mbs)"

section \<open>TriggerBox::determine_next_trigger\<close>

text \<open>
  \<^verbatim>\<open>_pcg.rand (max)\<close> is the parameter \<open>rand\<close>: from the state of the generator and
  \<open>max\<close> it gives the number drawn and the next state. The test
  \<^verbatim>\<open>all_triggers[n]->region() && !all_triggers[n]->active ()\<close> of the loops is \<open>can_follow\<close>.
\<close>

definition can_follow :: "AudioTrigger \<Rightarrow> bool" where
  "can_follow t = (region t \<noteq> None \<and> \<not> active t)"

text \<open>
  The loop of \<^verbatim>\<open>NextTrigger\<close>, entered with \<open>n = current\<close>. \<open>Inr None\<close> is the
  \<^verbatim>\<open>break\<close>. The caller has read \<^verbatim>\<open>all_triggers[current]\<close> before the loop, which
  is the first test here.
\<close>

function next_trigger_loop :: "AudioTrigger list \<Rightarrow> nat \<Rightarrow> nat \<Rightarrow> fault + nat option" where
  "next_trigger_loop ts current n =
     (if current \<ge> length ts then Inl OutOfRange
      else (let n = n + 1;
                n = (if n \<ge> length ts then 0 else n)
            in if n = current then Inr None
               else if n \<ge> length ts then Inl OutOfRange
               else if can_follow (ts ! n) then Inr (Some n)
               else next_trigger_loop ts current n))"
  by pat_completeness auto
termination
  by (relation "measure (\<lambda>(ts, current, n).
        if n \<ge> length ts then length ts + 1
        else if n < current then current - n else current + length ts - n)")
     (auto simp: Let_def split: if_splits)

declare next_trigger_loop.simps [simp del]

text \<open>The loop of \<^verbatim>\<open>PrevTrigger\<close>, entered with \<open>n = current\<close>.\<close>

function prev_trigger_loop :: "AudioTrigger list \<Rightarrow> nat \<Rightarrow> nat \<Rightarrow> fault + nat option" where
  "prev_trigger_loop ts current n =
     (if current \<ge> length ts then Inl OutOfRange
      else (let n = (if n = 0 then length ts - 1 else n - 1)
            in if n = current then Inr None
               else if n \<ge> length ts then Inl OutOfRange
               else if can_follow (ts ! n) then Inr (Some n)
               else prev_trigger_loop ts current n))"
  by pat_completeness auto
termination
  by (relation "measure (\<lambda>(ts, current, n).
        if n \<ge> length ts then length ts + 1
        else if n > current then n - current else n + length ts - current)")
     (auto simp: Let_def split: if_splits)

declare prev_trigger_loop.simps [simp del]

text \<open>
  The loops of \<^verbatim>\<open>AnyTrigger\<close> and \<^verbatim>\<open>OtherTrigger\<close> draw slots until one can follow;
  nothing bounds the number of draws, so the result \<open>None\<close> stands for a loop that
  never ends. The number drawn is an \<^verbatim>\<open>int\<close> stored in the \<^verbatim>\<open>uint64_t n\<close>.
\<close>

partial_function (option) any_trigger_loop ::
  "('g \<Rightarrow> int \<Rightarrow> int \<times> 'g) \<Rightarrow> AudioTrigger list \<Rightarrow> 'g \<Rightarrow> (fault + nat \<times> 'g) option" where
  "any_trigger_loop rand ts g =
     (case rand g (int (length ts)) of (n, g) \<Rightarrow>
        if n < 0 \<or> n \<ge> int (length ts) then Some (Inl OutOfRange)
        else if region (ts ! nat n) = None then any_trigger_loop rand ts g
        else if active (ts ! nat n) then any_trigger_loop rand ts g
        else Some (Inr (nat n, g)))"

partial_function (option) other_trigger_loop ::
  "('g \<Rightarrow> int \<Rightarrow> int \<times> 'g) \<Rightarrow> AudioTrigger list \<Rightarrow> nat \<Rightarrow> 'g \<Rightarrow> (fault + nat \<times> 'g) option" where
  "other_trigger_loop rand ts current g =
     (case rand g (int (length ts)) of (n, g) \<Rightarrow>
        if n = int current then other_trigger_loop rand ts current g
        else if n < 0 \<or> n \<ge> int (length ts) then Some (Inl OutOfRange)
        else if region (ts ! nat n) = None then other_trigger_loop rand ts current g
        else if active (ts ! nat n) then other_trigger_loop rand ts current g
        else Some (Inr (nat n, g)))"

definition runnable :: "AudioTrigger list \<Rightarrow> nat" where
  "runnable ts = length (filter (\<lambda>t. region t \<noteq> None) ts)"

definition which_follow_action :: "int \<Rightarrow> AudioTrigger \<Rightarrow> nat" where
  "which_follow_action r t = (if r \<le> follow_action_probability t then 0 else 1)"

text \<open>
  \<^verbatim>\<open>determine_next_trigger\<close> returns an \<^verbatim>\<open>int\<close>: -1 or a position of the vector
  (a vector of fewer than \<open>2 ^ 31\<close> triggers). The box changes in its generator only.
\<close>

definition determine_next_trigger ::
  "('g \<Rightarrow> int \<Rightarrow> int \<times> 'g) \<Rightarrow> 'g TriggerBox \<Rightarrow> nat \<Rightarrow> (fault + int \<times> 'g TriggerBox) option" where
  "determine_next_trigger rand b current =
     (let ts = all_triggers b;
          (r, g) = rand (pcg b) 100;
          b = b\<lparr>pcg := g\<rparr>
      in if current \<ge> length ts then Some (Inl OutOfRange)
         else (let fa = follow_action (ts ! current) (which_follow_action r (ts ! current))
               in if fa = Stop then Some (Inr (- 1, b))
                  else if fa = QueuedTrigger then Some (Inr (- 1, b))
                  else if runnable ts = 1 then Some (Inr (int current, b))
                  else (case fa of
                          Again \<Rightarrow> Some (Inr (int current, b))
                        | NextTrigger \<Rightarrow>
                            (case next_trigger_loop ts current current of
                               Inl e \<Rightarrow> Some (Inl e)
                             | Inr (Some n) \<Rightarrow> Some (Inr (int n, b))
                             | Inr None \<Rightarrow> Some (Inr (int current, b)))
                        | PrevTrigger \<Rightarrow>
                            (case prev_trigger_loop ts current current of
                               Inl e \<Rightarrow> Some (Inl e)
                             | Inr (Some n) \<Rightarrow> Some (Inr (int n, b))
                             | Inr None \<Rightarrow> Some (Inr (int current, b)))
                        | FirstTrigger \<Rightarrow>
                            (case find (\<lambda>n. can_follow (ts ! n)) [0..<length ts] of
                               Some n \<Rightarrow> Some (Inr (int n, b))
                             | None \<Rightarrow> Some (Inr (int current, b)))
                        | LastTrigger \<Rightarrow>
                            (case find (\<lambda>i. can_follow (ts ! i)) (rev [0..<length ts]) of
                               Some i \<Rightarrow> Some (Inr (int i, b))
                             | None \<Rightarrow> Some (Inr (int current, b)))
                        | AnyTrigger \<Rightarrow>
                            (case any_trigger_loop rand ts g of
                               None \<Rightarrow> None
                             | Some (Inl e) \<Rightarrow> Some (Inl e)
                             | Some (Inr (n, g)) \<Rightarrow> Some (Inr (int n, b\<lparr>pcg := g\<rparr>)))
                        | OtherTrigger \<Rightarrow>
                            (case other_trigger_loop rand ts current g of
                               None \<Rightarrow> None
                             | Some (Inl e) \<Rightarrow> Some (Inl e)
                             | Some (Inr (n, g)) \<Rightarrow> Some (Inr (int n, b\<lparr>pcg := g\<rparr>)))
                        | _ \<Rightarrow> Some (Inr (int current, b)))))"

definition prepare_next ::
  "('g \<Rightarrow> int \<Rightarrow> int \<times> 'g) \<Rightarrow> 'g TriggerBox \<Rightarrow> nat \<Rightarrow> (fault + 'g TriggerBox) option" where
  "prepare_next rand b current =
     (case determine_next_trigger rand b current of
        None \<Rightarrow> None
      | Some (Inl e) \<Rightarrow> Some (Inl e)
      | Some (Inr (nxt, b)) \<Rightarrow>
          if nxt \<ge> 0 then
            (if nat nxt < length (all_triggers b) then Some (Inr (queue_implicit b (nat nxt)))
             else Some (Inl OutOfRange))
          else Some (Inr b))"

section \<open>Trigger::maybe_compute_next_transition\<close>

text \<open>
  The temporal library is not among the sources. Its four operations that the code
  uses are parameters, on \<^verbatim>\<open>Temporal::Beats\<close> read as integers:
  \<open>Beats\<close> is the constructor \<^verbatim>\<open>Temporal::Beats (beats, ticks)\<close>, \<open>snap_to\<close> is
  \<^verbatim>\<open>Beats::snap_to\<close>, \<open>samples\<close> is \<^verbatim>\<open>timepos_t::samples ()\<close> of a position in beats
  and \<open>beats_at\<close> is \<^verbatim>\<open>timepos_t::beats ()\<close> of a position in samples. A
  \<^verbatim>\<open>timepos_t (Temporal::BeatTime)\<close> is the beat 0.
\<close>

record Temporal =
  Beats :: "int \<Rightarrow> int \<Rightarrow> int"
  snap_to :: "int \<Rightarrow> int \<Rightarrow> int"
  samples :: "int \<Rightarrow> int"
  beats_at :: "int \<Rightarrow> int"

definition maybe_compute_next_transition ::
  "Temporal \<Rightarrow> ('g \<Rightarrow> int \<Rightarrow> int \<times> 'g) \<Rightarrow> 'g TriggerBox \<Rightarrow> nat \<Rightarrow> int \<Rightarrow> int
   \<Rightarrow> (fault + RunType \<times> 'g TriggerBox) option" where
  "maybe_compute_next_transition tm rand b i start end' =
     (if i \<ge> length (all_triggers b) then Some (Inl NullDereference)
      else (let t = all_triggers b ! i
            in case state t of
                 Stopped \<Rightarrow> Some (Inr (RunNone, b))
               | Running \<Rightarrow> Some (Inr (RunAll, b))
               | Stopping \<Rightarrow> Some (Inr (RunAll, b))
               | _ \<Rightarrow>
                  (let ev_time =
                         (if bars (quantization t) = 0
                          then snap_to tm start (Beats tm (beats (quantization t)) (ticks (quantization t)))
                          else 0)
                   in if ev_time \<ge> start \<and> ev_time < end' then
                        (let b = on_trigger b i
                                   (\<lambda>t. t\<lparr>bang_samples := samples tm ev_time, bang_beats := ev_time\<rparr>)
                         in if state t = WaitingToStop then
                              Some (Inr (RunEnd, on_trigger b i (\<lambda>t. t\<lparr>state := Stopping\<rparr>)))
                            else if state t = WaitingToStart then
                              (let b = on_trigger b i AudioTrigger_retrigger;
                                   b = on_trigger b i (\<lambda>t. t\<lparr>state := Running\<rparr>)
                               in case prepare_next rand b (index (all_triggers b ! i)) of
                                    None \<Rightarrow> None
                                  | Some (Inl e) \<Rightarrow> Some (Inl e)
                                  | Some (Inr b) \<Rightarrow> Some (Inr (RunStart, b)))
                            else if state t = WaitingForRetrigger then
                              (let b = on_trigger b i AudioTrigger_retrigger;
                                   b = on_trigger b i (\<lambda>t. t\<lparr>state := Running\<rparr>)
                               in case prepare_next rand b (index (all_triggers b ! i)) of
                                    None \<Rightarrow> None
                                  | Some (Inl e) \<Rightarrow> Some (Inl e)
                                  | Some (Inr b) \<Rightarrow> Some (Inr (RunAll, b)))
                            else Some (Inr (RunNone, b)))
                      else if state t = WaitingForRetrigger \<or> state t = WaitingToStop then
                        Some (Inr (RunAll, b))
                      else Some (Inr (RunNone, b)))))"

section \<open>AudioTrigger::run\<close>

text \<open>
  The frame counts \<^verbatim>\<open>pframes_t\<close> are 32-bit unsigned words; the cast
  \<^verbatim>\<open>(pframes_t)\<close> of a 64-bit count is \<open>word_of_int\<close>. The sample buffers that the
  call fills are not modelled (so the argument \<^verbatim>\<open>first\<close> has no effect here); what
  is kept of the loop over the channels is the remainder \<^verbatim>\<open>chn % data.size ()\<close>,
  which divides by zero when the region has a channel and no data is loaded.

  The \<^verbatim>\<open>while (nframes)\<close> loop has no bound in the source: with \<^verbatim>\<open>Repeat\<close> or
  the trigger queued as its own successor it goes around again after each end, so
  \<open>None\<close> stands for a loop that never ends.
\<close>

partial_function (option) AudioTrigger_run_loop ::
  "'g TriggerBox \<Rightarrow> nat \<Rightarrow> Region \<Rightarrow> 32 word \<Rightarrow> 32 word \<Rightarrow> (fault + 'g TriggerBox) option" where
  "AudioTrigger_run_loop b i ar nframes dest_offset =
     (if nframes = 0 then Some (Inr b)
      else (let t = all_triggers b ! i;
                this_read = (word_of_int (min (uint nframes) (last_sample t - read_index t)) :: 32 word)
            in if n_channels ar > 0 \<and> data t = [] then Some (Inl DivisionByZero)
               else (let b = on_trigger b i (\<lambda>t. t\<lparr>read_index := read_index t + uint this_read\<rparr>);
                         t = all_triggers b ! i
                     in if read_index t \<ge> last_sample t then
                          (if launch_style t = Repeat \<or> peek_next_trigger b = Some i then
                             AudioTrigger_run_loop (on_trigger b i AudioTrigger_retrigger) i ar
                               (nframes - this_read) (dest_offset + this_read)
                           else Some (Inr (on_trigger b i (\<lambda>t. t\<lparr>state := Stopped\<rparr>))))
                        else AudioTrigger_run_loop b i ar (nframes - this_read) dest_offset)))"

definition AudioTrigger_run ::
  "'g TriggerBox \<Rightarrow> nat \<Rightarrow> 32 word \<Rightarrow> 32 word \<Rightarrow> bool \<Rightarrow> (fault + 'g TriggerBox) option" where
  "AudioTrigger_run b i nframes dest_offset first =
     (if i \<ge> length (all_triggers b) then Some (Inl NullDereference)
      else (let t = all_triggers b ! i;
                long_enough_to_fade = (nframes \<ge> 64)
            in case (case region t of Some r \<Rightarrow> (if is_audio r then Some r else None) | None \<Rightarrow> None) of
                 None \<Rightarrow> Some (Inl AssertionFailed)
               | Some ar \<Rightarrow>
                   if \<not> active t then Some (Inl AssertionFailed)
                   else (case AudioTrigger_run_loop b i ar nframes dest_offset of
                           None \<Rightarrow> None
                         | Some (Inl e) \<Rightarrow> Some (Inl e)
                         | Some (Inr b) \<Rightarrow>
                             if state (all_triggers b ! i) = Stopping \<and> long_enough_to_fade
                             then Some (Inr (on_trigger b i (\<lambda>t. t\<lparr>state := Stopped\<rparr>)))
                             else Some (Inr b))))"


section \<open>TriggerBox::run\<close>

definition stop_all :: "'g TriggerBox \<Rightarrow> 'g TriggerBox" where
  "stop_all b =
     (let b = b\<lparr>all_triggers := map Trigger_stop (all_triggers b)\<rparr>;
          b = b\<lparr>implicit_queue := rb_reset (implicit_queue b)\<rparr>;
          b = b\<lparr>explicit_queue := rb_reset (explicit_queue b)\<rparr>
      in b)"

text \<open>The loop that lets each trigger handle its state changes, over the positions \<open>ns\<close>.\<close>

fun process_all_state_requests :: "'g TriggerBox \<Rightarrow> nat list \<Rightarrow> fault + 'g TriggerBox" where
  "process_all_state_requests b [] = Inr b"
| "process_all_state_requests b (n # ns) =
     (case process_state_requests b n of
        Inl e \<Rightarrow> Inl e
      | Inr b' \<Rightarrow> process_all_state_requests b' ns)"

text \<open>
  The part of \<^verbatim>\<open>run\<close> that looks for an explicitly queued trigger with legato set.
  \<open>cp\<close> is \<^verbatim>\<open>currently_playing\<close>, not null here.
\<close>

definition legato_switch ::
  "('g \<Rightarrow> int \<Rightarrow> int \<times> 'g) \<Rightarrow> 'g TriggerBox \<Rightarrow> nat \<Rightarrow> (fault + 'g TriggerBox) option" where
  "legato_switch rand b cp =
     (if rb_peek (explicit_queue b) \<noteq> None then
        (case get_next_trigger b of
           (None, b) \<Rightarrow> Some (Inl NullDereference)
         | (Some nxt, b) \<Rightarrow>
             if nxt \<noteq> cp then
               (if nxt \<ge> length (all_triggers b) \<or> cp \<ge> length (all_triggers b)
                then Some (Inl NullDereference)
                else if legato (all_triggers b ! nxt) then
                  (let b = on_trigger b nxt (set_legato_offset (current_pos (all_triggers b ! cp)));
                       b = on_trigger b nxt AudioTrigger_jump_start;
                       b = on_trigger b cp AudioTrigger_jump_stop
                   in case prepare_next rand b (index (all_triggers b ! nxt)) of
                        None \<Rightarrow> None
                      | Some (Inl e) \<Rightarrow> Some (Inl e)
                      | Some (Inr b) \<Rightarrow> Some (Inr (b\<lparr>currently_playing := Some nxt\<rparr>)))
                else Some (Inr b))
             else Some (Inr b))
      else Some (Inr b))"

text \<open>
  One pass of the loop \<^verbatim>\<open>while (currently_playing)\<close> up to the call of
  \<^verbatim>\<open>AudioTrigger::run\<close>, for the trigger \<open>cp\<close> that is playing. The flag of the
  result is false for the \<^verbatim>\<open>return\<close> on \<^verbatim>\<open>RunNone\<close> and true when the trigger ran.
\<close>

definition run_current ::
  "Temporal \<Rightarrow> ('g \<Rightarrow> int \<Rightarrow> int \<times> 'g) \<Rightarrow> 'g TriggerBox \<Rightarrow> nat \<Rightarrow> int \<Rightarrow> int \<Rightarrow> int
   \<Rightarrow> 32 word \<Rightarrow> bool \<Rightarrow> (fault + bool \<times> 'g TriggerBox) option" where
  "run_current tm rand b cp start_sample start_beats end_beats nframes first =
     (if cp \<ge> length (all_triggers b) then Some (Inl NullDereference)
      else if State_value (state (all_triggers b ! cp)) < State_value WaitingToStart
      then Some (Inl AssertionFailed)
      else (case (if state (all_triggers b ! cp) = WaitingToStop
                     \<or> state (all_triggers b ! cp) = WaitingToStart
                     \<or> state (all_triggers b ! cp) = WaitingForRetrigger
                  then maybe_compute_next_transition tm rand b cp start_beats end_beats
                  else Some (Inr (RunAll, b))) of
              None \<Rightarrow> None
            | Some (Inl e) \<Rightarrow> Some (Inl e)
            | Some (Inr (rt, b)) \<Rightarrow>
                if rt = RunNone then Some (Inr (False, b))
                else (let t = all_triggers b ! cp;
                          r = region t;
                          was_waiting_to_start = (state t = WaitingToStart);
                          dest_offset =
                            (if rt = RunStart then max 0 (bang_samples t - start_sample) else 0);
                          trigger_samples =
                            (if rt = RunEnd
                             then (word_of_int (uint nframes - (bang_samples t - start_sample)) :: 32 word)
                             else if rt = RunStart then word_of_int (uint nframes - dest_offset)
                             else nframes)
                      in case (if was_waiting_to_start
                               then (case determine_next_trigger rand b (index t) of
                                       None \<Rightarrow> None
                                     | Some (Inl e) \<Rightarrow> Some (Inl e)
                                     | Some (Inr (n, b)) \<Rightarrow> Some (Inr b))
                               else Some (Inr b)) of
                           None \<Rightarrow> None
                         | Some (Inl e) \<Rightarrow> Some (Inl e)
                         | Some (Inr b) \<Rightarrow>
                             (case (case r of Some r \<Rightarrow> (if is_audio r then Some r else None)
                                            | None \<Rightarrow> None) of
                                None \<Rightarrow> Some (Inl NullDereference)
                              | Some ar \<Rightarrow>
                                  (case AudioTrigger_run b cp trigger_samples (word_of_int dest_offset) first of
                                     None \<Rightarrow> None
                                   | Some (Inl e) \<Rightarrow> Some (Inl e)
                                   | Some (Inr b) \<Rightarrow> Some (Inr (True, b)))))))"

text \<open>
  The loop \<^verbatim>\<open>while (currently_playing)\<close>. It goes around again each time the playing
  trigger stops and another is taken from the queues, without a bound in the source.
\<close>

partial_function (option) run_loop ::
  "Temporal \<Rightarrow> ('g \<Rightarrow> int \<Rightarrow> int \<times> 'g) \<Rightarrow> 'g TriggerBox \<Rightarrow> int \<Rightarrow> int \<Rightarrow> int \<Rightarrow> 32 word
   \<Rightarrow> (fault + 'g TriggerBox) option" where
  "run_loop tm rand b start_sample start_beats end_beats nframes =
     (case currently_playing b of
        None \<Rightarrow> Some (Inr b)
      | Some cp \<Rightarrow>
          (case run_current tm rand b cp start_sample start_beats end_beats nframes False of
             None \<Rightarrow> None
           | Some (Inl e) \<Rightarrow> Some (Inl e)
           | Some (Inr (did_run, b)) \<Rightarrow>
               if \<not> did_run then Some (Inr b)
               else if state (all_triggers b ! cp) = Stopped then
                 (case get_next_trigger b of
                    (Some nxt, b) \<Rightarrow>
                      if nxt \<ge> length (all_triggers b) then Some (Inl NullDereference)
                      else (let b = (if legato (all_triggers b ! nxt)
                                     then on_trigger b nxt (set_legato_offset (current_pos (all_triggers b ! cp)))
                                     else b);
                                b = on_trigger b nxt AudioTrigger_startup;
                                b = b\<lparr>currently_playing := Some nxt\<rparr>
                            in run_loop tm rand b start_sample start_beats end_beats nframes)
                  | (None, b) \<Rightarrow>
                      run_loop tm rand (b\<lparr>currently_playing := None\<rparr>) start_sample start_beats end_beats nframes)
               else Some (Inr b)))"

text \<open>
  \<^verbatim>\<open>TriggerBox::run\<close>. \<open>bufs\<close> is the MIDI part of the buffer set. The calls to
  the session about the transport and the channel count set on the buffers at the end
  are outside the box and left out; \<^verbatim>\<open>speed\<close> and \<^verbatim>\<open>result_required\<close> are not
  used by the source.
\<close>

definition TriggerBox_run ::
  "Temporal \<Rightarrow> ('g \<Rightarrow> int \<Rightarrow> int \<times> 'g) \<Rightarrow> 'g TriggerBox \<Rightarrow> MidiEvent list list \<Rightarrow> int \<Rightarrow> int
   \<Rightarrow> 32 word \<Rightarrow> (fault + 'g TriggerBox) option" where
  "TriggerBox_run tm rand b bufs start_sample end_sample nframes =
     (if start_sample < 0 then Some (Inr b)
      else (case process_midi_trigger_requests b bufs of
              Inl e \<Rightarrow> Some (Inl e)
            | Inr b \<Rightarrow>
               (case process_all_state_requests b [0..<length (all_triggers b)] of
                  Inl e \<Rightarrow> Some (Inl e)
                | Inr b \<Rightarrow>
                   (let b = (if currently_playing b = None
                             then (case get_next_trigger b of
                                     (Some c, b) \<Rightarrow>
                                        on_trigger (b\<lparr>currently_playing := Some c\<rparr>) c AudioTrigger_startup
                                   | (None, b) \<Rightarrow> b)
                             else b)
                    in case currently_playing b of
                         None \<Rightarrow> Some (Inr b)
                       | Some cp \<Rightarrow>
                           (let start_beats = beats_at tm start_sample;
                                end_beats = beats_at tm end_sample
                            in case legato_switch rand b cp of
                                 None \<Rightarrow> None
                               | Some (Inl e) \<Rightarrow> Some (Inl e)
                               | Some (Inr b) \<Rightarrow>
                                   (let b = (if stop_all_requested b
                                             then (stop_all b)\<lparr>stop_all_requested := False\<rparr>
                                             else b)
                                    in run_loop tm rand b start_sample start_beats end_beats nframes))))))"

section \<open>Claims about the queues\<close>

text \<open>A box as constructed in which trigger 3 is playing.\<close>

definition playing_box :: "unit TriggerBox" where
  "playing_box = (new_TriggerBox AUDIO ())\<lparr>currently_playing := Some 3\<rparr>"

text \<open>
  Claim C9. Every call \<^verbatim>\<open>queue_explict (t)\<close> leaves the implicit queue empty, and
  when a trigger is playing at the call, the unbang counter of that trigger is one more
  after it.
\<close>

theorem queue_explict_effect:
  "items (implicit_queue (queue_explict b t)) = [] \<and>
   (\<forall>c. currently_playing b = Some c \<and> c < length (all_triggers b) \<longrightarrow>
      unbang (all_triggers (queue_explict b t) ! c) = unbang (all_triggers b ! c) + 1)"
  by (auto simp: queue_explict_def Let_def rb_reset_def on_trigger_def Trigger_unbang_def
      split: option.splits)

theorem queue_explict_effect_witness:
  "currently_playing playing_box = Some 3 \<and> 3 < length (all_triggers playing_box) \<and>
   unbang (all_triggers playing_box ! 3) = 0 \<and>
   unbang (all_triggers (queue_explict playing_box 5) ! 3) = 1 \<and>
   items (implicit_queue (queue_explict playing_box 5)) = []"
  using queue_explict_effect [of playing_box 5]
  by (simp add: playing_box_def new_TriggerBox_def default_triggers_per_box_def new_AudioTrigger_def)

section \<open>Claims about process_state_requests\<close>

lemma handle_bang_ok:
  "i < length (all_triggers b) \<Longrightarrow> state (all_triggers b ! i) \<noteq> None_State \<Longrightarrow>
   \<exists>b'. handle_bang b i = Inr b' \<and> length (all_triggers b') = length (all_triggers b)
     \<and> state (all_triggers b' ! i) \<noteq> None_State
     \<and> requested_state (all_triggers b' ! i) = requested_state (all_triggers b ! i)"
  by (auto simp: handle_bang_def Let_def clear_implicit_def queue_explict_def nth_on_trigger Trigger_unbang_def
      split: State.splits LaunchStyle.splits option.splits)

lemma handle_unbang_keeps:
  "i < length (all_triggers b) \<Longrightarrow>
   bang (all_triggers (handle_unbang b i) ! i) = bang (all_triggers b ! i)
   \<and> requested_state (all_triggers (handle_unbang b i) ! i) = requested_state (all_triggers b ! i)"
  by (simp add: handle_unbang_def Let_def split: State.splits)

lemma handle_requested_state_ok:
  "i < length (all_triggers b) \<Longrightarrow> state (all_triggers b ! i) \<noteq> None_State \<Longrightarrow>
   length (all_triggers (handle_requested_state b i)) = length (all_triggers b)
   \<and> state (all_triggers (handle_requested_state b i) ! i) \<noteq> None_State
   \<and> requested_state (all_triggers (handle_requested_state b i) ! i) = None_State"
  by (auto simp: handle_requested_state_def Let_def queue_explict_def nth_on_trigger Trigger_unbang_def
      split: State.splits option.splits)

lemma bang_loop_drains:
  "i < length (all_triggers b) \<Longrightarrow> state (all_triggers b ! i) \<noteq> None_State \<Longrightarrow>
   \<exists>b'. bang_loop b i = Inr b' \<and> length (all_triggers b') = length (all_triggers b)
     \<and> bang (all_triggers b' ! i) = 0
     \<and> requested_state (all_triggers b' ! i) = requested_state (all_triggers b ! i)"
proof (induction b i rule: bang_loop.induct)
  case (1 b i)
  show ?case
  proof (cases "bang (all_triggers b ! i) = 0")
    case True
    with "1.prems" show ?thesis by simp
  next
    case False
    from handle_bang_ok [OF "1.prems"] obtain b1 where
      h: "handle_bang b i = Inr b1" "length (all_triggers b1) = length (all_triggers b)"
        "state (all_triggers b1 ! i) \<noteq> None_State"
        "requested_state (all_triggers b1 ! i) = requested_state (all_triggers b ! i)"
      by blast
    from "1.prems" False h have
      "\<exists>b'. bang_loop b1 i = Inr b' \<and> length (all_triggers b') = length (all_triggers b1)
         \<and> bang (all_triggers b' ! i) = 0
         \<and> requested_state (all_triggers b' ! i) = requested_state (all_triggers b1 ! i)"
      by (intro "1.IH") simp_all
    with "1.prems" False h show ?thesis by simp
  qed
qed

lemma unbang_loop_drains:
  "i < length (all_triggers b) \<Longrightarrow>
   \<exists>b'. unbang_loop b i = Inr b' \<and> unbang (all_triggers b' ! i) = 0
     \<and> bang (all_triggers b' ! i) = bang (all_triggers b ! i)
     \<and> requested_state (all_triggers b' ! i) = requested_state (all_triggers b ! i)"
proof (induction b i rule: unbang_loop.induct)
  case (1 b i)
  show ?case
  proof (cases "unbang (all_triggers b ! i) = 0")
    case True
    with "1.prems" show ?thesis by simp
  next
    case False
    from "1.prems" False have
      "\<exists>b'. unbang_loop (handle_unbang b i) i = Inr b' \<and> unbang (all_triggers b' ! i) = 0
         \<and> bang (all_triggers b' ! i) = bang (all_triggers (handle_unbang b i) ! i)
         \<and> requested_state (all_triggers b' ! i) = requested_state (all_triggers (handle_unbang b i) ! i)"
      by (intro "1.IH") simp_all
    with "1.prems" False show ?thesis by (simp add: handle_unbang_keeps)
  qed
qed

text \<open>A box as constructed, whose first trigger has two bangs, one unbang and a request pending.\<close>

definition pending_box :: "unit TriggerBox" where
  "pending_box = on_trigger (new_TriggerBox AUDIO ()) 0
      (\<lambda>t. t\<lparr>bang := 2, unbang := 1, requested_state := Running\<rparr>)"

text \<open>
  Claim C3. For the trigger at any position of the box, with any values of the bang and
  unbang counters (the non-negative ones among them), one call of
  \<^verbatim>\<open>process_state_requests\<close> returns, and after it the bang counter and the unbang
  counter of that trigger are zero and its requested state is \<^verbatim>\<open>None\<close>. The trigger's
  own state is one of the six real states, as every assignment of the source makes it;
  with the state \<^verbatim>\<open>None\<close> a pending bang reaches \<^verbatim>\<open>abort ()\<close>.
\<close>

theorem process_state_requests_drains:
  assumes "i < length (all_triggers b)" and "state (all_triggers b ! i) \<noteq> None_State"
  shows "\<exists>b'. process_state_requests b i = Inr b'
     \<and> bang (all_triggers b' ! i) = 0 \<and> unbang (all_triggers b' ! i) = 0
     \<and> requested_state (all_triggers b' ! i) = None_State"
proof -
  let ?b0 = "handle_requested_state b i"
  from handle_requested_state_ok [OF assms] have
    r: "length (all_triggers ?b0) = length (all_triggers b)"
      "state (all_triggers ?b0 ! i) \<noteq> None_State"
      "requested_state (all_triggers ?b0 ! i) = None_State"
    by simp_all
  from assms r have "i < length (all_triggers ?b0)" by simp
  from bang_loop_drains [OF this r(2)] obtain b1 where
    b1: "bang_loop ?b0 i = Inr b1" "length (all_triggers b1) = length (all_triggers ?b0)"
      "bang (all_triggers b1 ! i) = 0"
      "requested_state (all_triggers b1 ! i) = requested_state (all_triggers ?b0 ! i)"
    by blast
  from assms r b1 have "i < length (all_triggers b1)" by simp
  from unbang_loop_drains [OF this] obtain b2 where
    b2: "unbang_loop b1 i = Inr b2" "unbang (all_triggers b2 ! i) = 0"
      "bang (all_triggers b2 ! i) = bang (all_triggers b1 ! i)"
      "requested_state (all_triggers b2 ! i) = requested_state (all_triggers b1 ! i)"
    by blast
  from assms b1 b2 r show ?thesis
    by (simp add: process_state_requests_def)
qed

theorem process_state_requests_drains_witness:
  "0 < length (all_triggers pending_box) \<and> state (all_triggers pending_box ! 0) \<noteq> None_State \<and>
   (\<exists>b'. process_state_requests pending_box 0 = Inr b'
     \<and> bang (all_triggers b' ! 0) = 0 \<and> unbang (all_triggers b' ! 0) = 0
     \<and> requested_state (all_triggers b' ! 0) = None_State)"
proof -
  have h: "0 < length (all_triggers pending_box)" "state (all_triggers pending_box ! 0) \<noteq> None_State"
    by (simp_all add: pending_box_def new_TriggerBox_def default_triggers_per_box_def new_AudioTrigger_def on_trigger_def)
  from process_state_requests_drains [OF h] h show ?thesis by simp
qed

section \<open>Claims about load_data\<close>

lemma read_channels_fields:
  "read_channels ar ns t = Some t' \<Longrightarrow>
   data_length t' = data_length t \<and> usable_length t' = usable_length t
   \<and> last_sample t' = last_sample t \<and> start_offset t' = start_offset t"
  by (induction ns arbitrary: t) (auto split: option.splits)

text \<open>A readable one-channel audio region of the given length.\<close>

definition mono_region :: "int \<Rightarrow> Region" where
  "mono_region len = \<lparr>region_id = 1, region_name = ''clip'', is_audio = True, length_samples = len,
     n_channels = 1, read = (\<lambda>n. Some (replicate (nat len) 0))\<rparr>"

lemma load_data_fields:
  "data_length (snd (load_data ar t)) = length_samples ar \<and>
   start_offset (snd (load_data ar t)) = start_offset t \<and>
   usable_length (snd (load_data ar t)) =
     (if usable_length t = 0 \<or> usable_length t > length_samples ar then length_samples ar else usable_length t) \<and>
   last_sample (snd (load_data ar t)) =
     (if usable_length t = 0 \<or> usable_length t > length_samples ar then start_offset t + length_samples ar else last_sample t)"
  by (auto simp: load_data_def Let_def drop_data_def set_name_def split: option.splits
      dest!: read_channels_fields)

text \<open>
  Claim C7, amended. For every trigger and region, \<^verbatim>\<open>load_data\<close> sets
  \<^verbatim>\<open>data_length\<close> to the region's length in samples; it sets \<^verbatim>\<open>usable_length\<close>
  to \<^verbatim>\<open>data_length\<close> when the existing usable length is zero (not set yet) and to
  the minimum of the existing usable length and \<^verbatim>\<open>data_length\<close> otherwise; the
  resulting usable length never exceeds \<^verbatim>\<open>data_length\<close>, and whenever the usable
  length changes, \<^verbatim>\<open>last_sample\<close> is \<^verbatim>\<open>_start_offset\<close> plus the usable length.
\<close>

theorem load_data_usable_length:
  "data_length (snd (load_data ar t)) = length_samples ar \<and>
   usable_length (snd (load_data ar t)) =
     (if usable_length t = 0 then data_length (snd (load_data ar t))
      else min (usable_length t) (data_length (snd (load_data ar t)))) \<and>
   usable_length (snd (load_data ar t)) \<le> data_length (snd (load_data ar t)) \<and>
   (usable_length (snd (load_data ar t)) \<noteq> usable_length t \<longrightarrow>
      last_sample (snd (load_data ar t)) = start_offset (snd (load_data ar t)) + usable_length (snd (load_data ar t)))"
  using load_data_fields [of ar t] by (auto simp: min_def)

theorem load_data_usable_length_witness:
  "usable_length (snd (load_data (mono_region 1000) (new_AudioTrigger 0))) \<noteq> usable_length (new_AudioTrigger 0) \<and>
   usable_length (snd (load_data (mono_region 1000) (new_AudioTrigger 0))) = 1000 \<and>
   last_sample (snd (load_data (mono_region 1000) (new_AudioTrigger 0))) = 1000"
  using load_data_usable_length [of "mono_region 1000" "new_AudioTrigger 0"]
  by (simp add: load_data_fields mono_region_def new_AudioTrigger_def)

text \<open>
  Claim C7 as stated fails on a trigger whose usable length is still zero: the minimum
  of 0 and the data length 1000 is 0, and the code sets the usable length to 1000.
\<close>

theorem load_data_min_counterexample:
  "usable_length (snd (load_data (mono_region 1000) (new_AudioTrigger 0)))
   \<noteq> min (usable_length (new_AudioTrigger 0)) (data_length (snd (load_data (mono_region 1000) (new_AudioTrigger 0))))"
  by (simp add: load_data_fields mono_region_def new_AudioTrigger_def)

section \<open>Claims about saving and restoring\<close>

text \<open>
  The fields of the base class come back from a saved state that names no region.
\<close>

lemma Trigger_set_state_restores:
  assumes "region t = None"
  shows "snd (Trigger_set_state region_by_id set_region (Trigger_get_state t) t0)
    = t0\<lparr>legato := legato t, launch_style := launch_style t, follow_action_0 := follow_action_0 t,
         follow_action_1 := follow_action_1 t, quantization := quantization t, name := name t,
         index := index t\<rparr>"
  using assms
  by (simp add: Trigger_set_state_def Trigger_get_state_def Let_def set_property_def new_XMLNode_def
      get_property_bool_def get_property_LaunchStyle_def get_property_FollowAction_def
      get_property_BBT_Offset_def get_property_string_def get_property_uint_def
      get_property_ID_def)

text \<open>A trigger without a region whose start offset is 100 and usable length 500.\<close>

definition trimmed_trigger :: AudioTrigger where
  "trimmed_trigger = (new_AudioTrigger 2)\<lparr>start_offset := 100, usable_length := 500, last_sample := 600\<rparr>"

lemma AudioTrigger_set_state_is_Trigger_set_state:
  "AudioTrigger_set_state region_by_id set_region node t
   = (- 1, snd (Trigger_set_state region_by_id set_region node t))"
  by (simp add: AudioTrigger_set_state_def Trigger_set_state_def Let_def split: option.splits)

text \<open>
  Claim C2 at a failing input: the saved state of \<open>trimmed_trigger\<close> holds its start
  offset 100 and usable length 500, and restoring it into a new trigger returns -1 with
  the start offset and the usable length of the new trigger still 0, whatever the
  region registry holds.
\<close>

theorem set_state_loses_start_and_length:
  "properties (AudioTrigger_get_state trimmed_trigger) ''start'' = Some (TimeposValue 100) \<and>
   properties (AudioTrigger_get_state trimmed_trigger) ''length'' = Some (TimeposValue 500) \<and>
   fst (AudioTrigger_set_state region_by_id set_region (AudioTrigger_get_state trimmed_trigger) (new_AudioTrigger 0)) = - 1 \<and>
   start_offset (snd (AudioTrigger_set_state region_by_id set_region (AudioTrigger_get_state trimmed_trigger) (new_AudioTrigger 0))) = 0 \<and>
   usable_length (snd (AudioTrigger_set_state region_by_id set_region (AudioTrigger_get_state trimmed_trigger) (new_AudioTrigger 0))) = 0 \<and>
   index (snd (AudioTrigger_set_state region_by_id set_region (AudioTrigger_get_state trimmed_trigger) (new_AudioTrigger 0))) = 2"
  by (simp add: AudioTrigger_set_state_is_Trigger_set_state Trigger_set_state_def
      AudioTrigger_get_state_def Trigger_get_state_def Let_def set_property_def new_XMLNode_def
      get_property_bool_def get_property_LaunchStyle_def get_property_FollowAction_def
      get_property_BBT_Offset_def get_property_string_def get_property_uint_def
      get_property_ID_def trimmed_trigger_def new_AudioTrigger_def)

section \<open>Claims about process_midi_trigger_requests\<close>

text \<open>A note-on and a note-off event of the given note number.\<close>

definition note_on :: "nat \<Rightarrow> MidiEvent" where
  "note_on n = \<lparr>is_note = True, is_note_on = True, is_note_off = False, note_number = n\<rparr>"

definition note_off :: "nat \<Rightarrow> MidiEvent" where
  "note_off n = \<lparr>is_note = True, is_note_on = False, is_note_off = True, note_number = n\<rparr>"

text \<open>
  Claim C10 at failing inputs, on the box as constructed (eight triggers; the map sends
  the notes 60 to 69 to the slots 0 to 9). A note-on or note-off whose note is not in
  the map reaches \<^verbatim>\<open>t->bang ()\<close> or \<^verbatim>\<open>t->unbang ()\<close> with \<^verbatim>\<open>t\<close> null, and the
  notes 68 and 69 fail \<^verbatim>\<open>assert (mt->second < all_triggers.size())\<close>: the event is
  neither delivered to a trigger nor ignored.
\<close>

theorem process_midi_faults_on_default_box:
  "process_midi_trigger_requests (new_TriggerBox AUDIO g) [[note_on 70]] = Inl NullDereference \<and>
   process_midi_trigger_requests (new_TriggerBox AUDIO g) [[note_off 59]] = Inl NullDereference \<and>
   process_midi_trigger_requests (new_TriggerBox AUDIO g) [[note_on 68]] = Inl AssertionFailed \<and>
   process_midi_trigger_requests (new_TriggerBox AUDIO g) [[note_off 69]] = Inl AssertionFailed"
  by (simp add: process_midi_event_def new_TriggerBox_def default_triggers_per_box_def
      note_on_def note_off_def)

text \<open>An event whose note the map sends to a slot of the vector is delivered to that trigger.\<close>

lemma process_midi_event_mapped:
  "is_note ev \<Longrightarrow> midi_trigger_map b (note_number ev) = Some s \<Longrightarrow> s < length (all_triggers b) \<Longrightarrow>
   process_midi_event b ev =
     Inr (if is_note_on ev then on_trigger b s Trigger_bang
          else if is_note_off ev then on_trigger b s Trigger_unbang else b)"
  by (simp add: process_midi_event_def)

section \<open>Claims about determine_next_trigger\<close>

text \<open>
  The order of the scan of \<^verbatim>\<open>NextTrigger\<close> in the words of the specification: the
  indices \<open>(current + 1) mod N\<close>, \<open>(current + 2) mod N\<close>, ..., one full revolution
  without \<open>current\<close> itself; \<open>spec_next_trigger\<close> is the first of them whose region is
  not null and which is not active, and \<open>current\<close> when there is none.
\<close>

definition next_scan_order :: "nat \<Rightarrow> nat \<Rightarrow> nat list" where
  "next_scan_order N current = map (\<lambda>k. (current + k) mod N) [1..<N]"

definition spec_next_trigger :: "AudioTrigger list \<Rightarrow> nat \<Rightarrow> nat" where
  "spec_next_trigger ts current =
     (case find (\<lambda>n. region (ts ! n) \<noteq> None \<and> \<not> active (ts ! n)) (next_scan_order (length ts) current) of
        Some n \<Rightarrow> n
      | None \<Rightarrow> current)"

lemma cyclic_step_neq:
  fixes c k N :: nat
  assumes "c < N" "0 < k" "k < N"
  shows "(c + k) mod N \<noteq> c"
proof (cases "c + k < N")
  case True
  with assms show ?thesis by simp
next
  case False
  then have "(c + k) mod N = c + k - N"
    using assms by (simp add: le_mod_geq)
  with assms False show ?thesis by simp
qed

lemma succ_wrap: "n < N \<Longrightarrow> (if n + 1 \<ge> N then 0 else n + 1) = (n + 1) mod (N::nat)"
  by (cases "n + 1 = N") simp_all

lemma next_trigger_loop_unfold:
  assumes "current < length ts" "n < length ts"
  shows "next_trigger_loop ts current n =
    (if Suc n mod length ts = current then Inr None
     else if can_follow (ts ! (Suc n mod length ts)) then Inr (Some (Suc n mod length ts))
     else next_trigger_loop ts current (Suc n mod length ts))"
proof -
  have w: "(if length ts \<le> n + 1 then 0 else n + 1) = Suc n mod length ts"
    using succ_wrap [OF assms(2)] by simp
  have "0 < length ts" using assms by linarith
  then have lt: "Suc n mod length ts < length ts" by (rule mod_less_divisor)
  show ?thesis
    apply (subst next_trigger_loop.simps)
    unfolding Let_def w
    using assms lt by simp
qed

lemma next_trigger_loop_scan:
  assumes "current < length ts"
  shows "j < length ts \<Longrightarrow>
    next_trigger_loop ts current ((current + j) mod length ts)
    = Inr (find (\<lambda>n. can_follow (ts ! n)) (map (\<lambda>k. (current + k) mod length ts) [Suc j..<length ts]))"
proof (induction "length ts - j" arbitrary: j)
  case 0
  then show ?case by simp
next
  case (Suc d)
  let ?N = "length ts"
  let ?n = "(current + j) mod ?N"
  have pos: "0 < ?N" using assms by linarith
  have nlt: "?n < ?N" using pos by (rule mod_less_divisor)
  have step: "Suc ?n mod ?N = (current + Suc j) mod ?N"
    by (simp add: mod_Suc_eq)
  note unf = next_trigger_loop_unfold [OF assms nlt, unfolded step]
  show ?case
  proof (cases "Suc j = ?N")
    case True
    then have "(current + Suc j) mod ?N = current" using assms by simp
    with True show ?thesis by (simp add: unf)
  next
    case False
    with Suc.prems have lt: "Suc j < ?N" by simp
    then have ne: "(current + Suc j) mod ?N \<noteq> current"
      using cyclic_step_neq [OF assms, of "Suc j"] by simp
    have d: "d = ?N - Suc j" using Suc.hyps(2) by simp
    have IH: "next_trigger_loop ts current ((current + Suc j) mod ?N)
      = Inr (find (\<lambda>n. can_follow (ts ! n)) (map (\<lambda>k. (current + k) mod ?N) [Suc (Suc j)..<?N]))"
      using Suc.hyps(1) [OF d lt] .
    have l: "[Suc j..<?N] = Suc j # [Suc (Suc j)..<?N]"
      using lt by (simp add: upt_conv_Cons)
    show ?thesis
      unfolding unf l using ne IH by simp
  qed
qed

lemma next_trigger_loop_spec:
  assumes "current < length ts"
  shows "next_trigger_loop ts current current
    = Inr (find (\<lambda>n. can_follow (ts ! n)) (next_scan_order (length ts) current))"
proof -
  have "0 < length ts" using assms by linarith
  from next_trigger_loop_scan [OF assms this] assms show ?thesis
    by (simp add: next_scan_order_def)
qed


lemma cyclic_inj_le:
  fixes c x y N :: nat
  assumes "x \<le> y" "y < N" "(c + x) mod N = (c + y) mod N"
  shows "x = y"
proof -
  have "c + x \<le> c + y" using assms(1) by simp
  from mod_eq_dvd_iff_nat [OF this, of N] assms(3)
  have "N dvd (c + y) - (c + x)" by simp
  then have "N dvd y - x" by simp
  moreover have "y - x < N" using assms by simp
  ultimately have "y - x = 0"
    using nat_dvd_not_less by (cases "y - x = 0") auto
  with assms show ?thesis by simp
qed

lemma cyclic_inj:
  fixes c x y N :: nat
  assumes "x < N" "y < N" "(c + x) mod N = (c + y) mod N"
  shows "x = y"
proof (cases "x \<le> y")
  case True
  from cyclic_inj_le [OF True assms(2,3)] show ?thesis .
next
  case False
  then have "y \<le> x" by simp
  from cyclic_inj_le [OF this assms(1) assms(3) [symmetric]] show ?thesis by simp
qed

lemma next_scan_order_distinct:
  assumes "current < N"
  shows "distinct (next_scan_order N current)"
proof -
  have "inj_on (\<lambda>k. (current + k) mod N) {1..<N}"
    by (rule inj_onI) (auto dest: cyclic_inj)
  then show ?thesis
    by (simp add: next_scan_order_def distinct_map)
qed

lemma next_scan_order_set:
  assumes "current < N"
  shows "set (next_scan_order N current) = {0..<N} - {current}"
proof (rule card_subset_eq)
  show "finite ({0..<N} - {current})" by simp
  show "set (next_scan_order N current) \<subseteq> {0..<N} - {current}"
    using assms cyclic_step_neq [OF assms] by (auto simp: next_scan_order_def)
  have "card (set (next_scan_order N current)) = length (next_scan_order N current)"
    using next_scan_order_distinct [OF assms] by (rule distinct_card)
  also have "\<dots> = N - 1" by (simp add: next_scan_order_def)
  also have "\<dots> = card ({0..<N} - {current})" using assms by simp
  finally show "card (set (next_scan_order N current)) = card ({0..<N} - {current})" .
qed

lemma pred_wrap:
  assumes "0 < N"
  shows "(if Suc a mod N = 0 then N - 1 else Suc a mod N - 1) = a mod N"
proof (cases "Suc (a mod N) = N")
  case True
  then show ?thesis by (simp add: mod_Suc)
next
  case False
  then show ?thesis by (simp add: mod_Suc)
qed

lemma prev_trigger_loop_unfold:
  assumes "current < length ts"
  shows "prev_trigger_loop ts current (Suc a mod length ts) =
    (if a mod length ts = current then Inr None
     else if can_follow (ts ! (a mod length ts)) then Inr (Some (a mod length ts))
     else prev_trigger_loop ts current (a mod length ts))"
proof -
  have pos: "0 < length ts" using assms by linarith
  then have lt: "a mod length ts < length ts" by (rule mod_less_divisor)
  show ?thesis
    apply (subst prev_trigger_loop.simps)
    unfolding Let_def pred_wrap [OF pos]
    using assms lt by simp
qed

lemma prev_trigger_loop_scan:
  assumes "current < length ts"
  shows "i < length ts \<Longrightarrow>
    prev_trigger_loop ts current ((current + Suc i) mod length ts)
    = Inr (find (\<lambda>n. can_follow (ts ! n)) (map (\<lambda>k. (current + k) mod length ts) (rev [1..<Suc i])))"
proof (induction i)
  case 0
  have "prev_trigger_loop ts current (Suc current mod length ts) = Inr None"
    using assms by (simp add: prev_trigger_loop_unfold [OF assms])
  then show ?case by simp
next
  case (Suc i)
  then have lt: "0 < Suc i" "Suc i < length ts" by simp_all
  have ne: "(current + Suc i) mod length ts \<noteq> current"
    using cyclic_step_neq [OF assms lt] .
  have IH: "prev_trigger_loop ts current ((current + Suc i) mod length ts)
    = Inr (find (\<lambda>n. can_follow (ts ! n)) (map (\<lambda>k. (current + k) mod length ts) (rev [1..<Suc i])))"
    using Suc by simp
  have unf: "prev_trigger_loop ts current (Suc (current + Suc i) mod length ts) =
    (if can_follow (ts ! ((current + Suc i) mod length ts)) then Inr (Some ((current + Suc i) mod length ts))
     else prev_trigger_loop ts current ((current + Suc i) mod length ts))"
    using ne by (simp add: prev_trigger_loop_unfold [OF assms])
  have l: "rev [1..<Suc (Suc i)] = Suc i # rev [1..<Suc i]" by simp
  have "current + Suc (Suc i) = Suc (current + Suc i)" by simp
  then show ?case
    unfolding l using unf IH by simp
qed

lemma prev_trigger_loop_spec:
  assumes "current < length ts"
  shows "prev_trigger_loop ts current current
    = Inr (find (\<lambda>n. can_follow (ts ! n)) (rev (next_scan_order (length ts) current)))"
proof -
  obtain i where i: "length ts = Suc i" using assms by (cases "length ts") simp_all
  then have "i < length ts" by simp
  note scan = prev_trigger_loop_scan [OF assms this]
  have "(current + length ts) mod length ts = current" using assms by simp
  then have "(current + Suc i) mod length ts = current" using i by simp
  with scan have "prev_trigger_loop ts current current
    = Inr (find (\<lambda>n. can_follow (ts ! n)) (map (\<lambda>k. (current + k) mod length ts) (rev [1..<Suc i])))"
    by simp
  then show ?thesis
    unfolding next_scan_order_def rev_map i .
qed

lemma any_trigger_loop_result:
  assumes "any_trigger_loop rand ts g = Some y"
  shows "\<forall>n g'. y = Inr (n, g') \<longrightarrow> n < length ts \<and> can_follow (ts ! n)"
  using assms
  by (rule any_trigger_loop.raw_induct [rotated, where
        P = "\<lambda>rand ts g y. \<forall>n g'. y = Inr (n, g') \<longrightarrow> n < length ts \<and> can_follow (ts ! n)"])
     (auto simp: can_follow_def split: prod.splits if_splits)

lemma other_trigger_loop_result:
  assumes "other_trigger_loop rand ts current g = Some y"
  shows "\<forall>n g'. y = Inr (n, g') \<longrightarrow> n < length ts \<and> can_follow (ts ! n)"
  using assms
  by (rule other_trigger_loop.raw_induct [rotated, where
        P = "\<lambda>rand ts current g y. \<forall>n g'. y = Inr (n, g') \<longrightarrow> n < length ts \<and> can_follow (ts ! n)"])
     (auto simp: can_follow_def split: prod.splits if_splits)


lemma find_can_follow_Some:
  "find (\<lambda>n. can_follow (ts ! n)) xs = Some n \<Longrightarrow> n \<in> set xs \<and> can_follow (ts ! n)"
  by (auto simp: find_Some_iff)

lemma find_can_follow_exists:
  "m \<in> set xs \<Longrightarrow> can_follow (ts ! m) \<Longrightarrow> \<exists>n. find (\<lambda>n. can_follow (ts ! n)) xs = Some n"
  by (cases "find (\<lambda>n. can_follow (ts ! n)) xs") (auto simp: find_None_iff)

text \<open>A generator that always draws 0, and a box whose slots 1 and 3 hold a region.\<close>

definition zero_rand :: "unit \<Rightarrow> int \<Rightarrow> int \<times> unit" where
  "zero_rand g m = (0, g)"

definition two_clip_box :: "unit TriggerBox" where
  "two_clip_box = on_trigger (on_trigger (new_TriggerBox AUDIO ()) 1
      (\<lambda>t. t\<lparr>region := Some (mono_region 1000)\<rparr>)) 3 (\<lambda>t. t\<lparr>region := Some (mono_region 500)\<rparr>)"

text \<open>A box in which slot 3 alone holds a region.\<close>

definition one_clip_box :: "unit TriggerBox" where
  "one_clip_box = on_trigger (new_TriggerBox AUDIO ()) 3 (\<lambda>t. t\<lparr>region := Some (mono_region 500)\<rparr>)"

text \<open>
  Claim C4, amended. For every box and every slot \<open>current\<close> of it, with the follow
  action selected by the number drawn: \<^verbatim>\<open>determine_next_trigger (current)\<close> returns
  -1 when the action is \<^verbatim>\<open>Stop\<close> or \<^verbatim>\<open>QueuedTrigger\<close>; returns \<open>current\<close> when it
  is \<^verbatim>\<open>Again\<close>; returns \<open>current\<close> when exactly one trigger has a region and the
  action is neither \<^verbatim>\<open>Stop\<close> nor \<^verbatim>\<open>QueuedTrigger\<close>; and for \<^verbatim>\<open>NextTrigger\<close>, when
  the number of triggers with a region is not exactly one, returns the first slot in
  the order \<open>(current + 1) mod N\<close>, \<open>(current + 2) mod N\<close>, ... whose region is not
  null and which is not active, giving up with \<open>current\<close>. The order holds every other
  slot exactly once. Only the generator of the box changes.
\<close>

theorem determine_next_trigger_cases:
  assumes "current < length (all_triggers b)"
  shows "let ts = all_triggers b;
             fa = follow_action (ts ! current) (which_follow_action (fst (rand (pcg b) 100)) (ts ! current));
             b' = b\<lparr>pcg := snd (rand (pcg b) 100)\<rparr>;
             result = determine_next_trigger rand b current
         in (fa = Stop \<or> fa = QueuedTrigger \<longrightarrow> result = Some (Inr (- 1, b')))
          \<and> (fa = Again \<longrightarrow> result = Some (Inr (int current, b')))
          \<and> (fa \<noteq> Stop \<and> fa \<noteq> QueuedTrigger \<and> runnable ts = 1 \<longrightarrow> result = Some (Inr (int current, b')))
          \<and> (fa = NextTrigger \<and> runnable ts \<noteq> 1 \<longrightarrow>
               result = Some (Inr (int (spec_next_trigger ts current), b')))
          \<and> distinct (next_scan_order (length ts) current)
          \<and> set (next_scan_order (length ts) current) = {0..<length ts} - {current}"
proof -
  obtain r g where rg: "rand (pcg b) 100 = (r, g)" by (cases "rand (pcg b) 100")
  have nx: "next_trigger_loop (all_triggers b) current current
    = Inr (find (\<lambda>n. can_follow (all_triggers b ! n)) (next_scan_order (length (all_triggers b)) current))"
    using assms by (rule next_trigger_loop_spec)
  have sp: "spec_next_trigger (all_triggers b) current
    = (case find (\<lambda>n. can_follow (all_triggers b ! n)) (next_scan_order (length (all_triggers b)) current) of
         Some n \<Rightarrow> n | None \<Rightarrow> current)"
    by (simp add: spec_next_trigger_def can_follow_def)
  show ?thesis
    using assms next_scan_order_distinct [OF assms] next_scan_order_set [OF assms]
    by (auto simp: Let_def determine_next_trigger_def rg nx sp split: option.splits)
qed

theorem determine_next_trigger_cases_witness:
  "1 < length (all_triggers two_clip_box) \<and>
   follow_action (all_triggers two_clip_box ! 1)
     (which_follow_action (fst (zero_rand (pcg two_clip_box) 100)) (all_triggers two_clip_box ! 1)) = NextTrigger \<and>
   runnable (all_triggers two_clip_box) = 2 \<and>
   determine_next_trigger zero_rand two_clip_box 1 = Some (Inr (3, two_clip_box))"
  using determine_next_trigger_cases [of 1 two_clip_box zero_rand]
  by (simp add: two_clip_box_def new_TriggerBox_def default_triggers_per_box_def new_AudioTrigger_def
      on_trigger_def zero_rand_def follow_action_def which_follow_action_def runnable_def
      spec_next_trigger_def next_scan_order_def active_def Let_def upt_conv_Cons)


text \<open>
  Claim C4 as stated fails for \<^verbatim>\<open>NextTrigger\<close> on a box in which slot 3 alone holds a
  region: from slot 0 the order of the scan is 1, 2, ..., 7, the first slot in it whose
  region is not null and which is not active is slot 3, and the call returns 0 without
  a scan, because exactly one trigger has a region.
\<close>

theorem determine_next_trigger_single_clip_counterexample:
  "follow_action (all_triggers one_clip_box ! 0)
     (which_follow_action (fst (zero_rand (pcg one_clip_box) 100)) (all_triggers one_clip_box ! 0)) = NextTrigger \<and>
   next_scan_order (length (all_triggers one_clip_box)) 0 = [1, 2, 3, 4, 5, 6, 7] \<and>
   region (all_triggers one_clip_box ! 1) = None \<and>
   region (all_triggers one_clip_box ! 2) = None \<and>
   region (all_triggers one_clip_box ! 3) \<noteq> None \<and>
   \<not> active (all_triggers one_clip_box ! 3) \<and>
   spec_next_trigger (all_triggers one_clip_box) 0 = 3 \<and>
   determine_next_trigger zero_rand one_clip_box 0 = Some (Inr (0, one_clip_box))"
  by (simp add: one_clip_box_def new_TriggerBox_def default_triggers_per_box_def new_AudioTrigger_def
      on_trigger_def zero_rand_def follow_action_def which_follow_action_def runnable_def
      determine_next_trigger_def spec_next_trigger_def next_scan_order_def active_def Let_def
      upt_conv_Cons)

text \<open>A slot that may follow: it is in the vector, has a region and is not active.\<close>

definition playable :: "AudioTrigger list \<Rightarrow> nat \<Rightarrow> bool" where
  "playable ts m = (m < length ts \<and> region (ts ! m) \<noteq> None \<and> \<not> active (ts ! m))"

lemma playable_can_follow: "playable ts m = (m < length ts \<and> can_follow (ts ! m))"
  by (auto simp: playable_def can_follow_def)

lemma determine_next_trigger_other_playable:
  assumes "determine_next_trigger rand b current = Some (Inr (n, b'))" and "0 \<le> n"
    and "n \<noteq> int current"
  shows "playable (all_triggers b) (nat n)"
proof -
  obtain r g where rg: "rand (pcg b) 100 = (r, g)" by (cases "rand (pcg b) 100")
  let ?ts = "all_triggers b"
  from assms(1) have cur: "current < length ?ts"
    by (auto simp: determine_next_trigger_def rg Let_def split: if_splits)
  note nx = next_trigger_loop_spec [OF cur]
  note pv = prev_trigger_loop_spec [OF cur]
  note st = next_scan_order_set [OF cur]
  show ?thesis
    using assms cur
    by (auto simp: determine_next_trigger_def rg Let_def nx pv st playable_can_follow
        split: if_splits FollowAction.splits option.splits sum.splits prod.splits
        dest!: find_can_follow_Some any_trigger_loop_result other_trigger_loop_result)
qed

lemma determine_next_trigger_candidate_playable:
  assumes "determine_next_trigger rand b current = Some (Inr (n, b'))" and "0 \<le> n"
    and "follow_action (all_triggers b ! current)
           (which_follow_action (fst (rand (pcg b) 100)) (all_triggers b ! current)) \<noteq> Again"
    and "runnable (all_triggers b) \<noteq> 1"
    and "m \<noteq> current" and "playable (all_triggers b) m"
  shows "playable (all_triggers b) (nat n)"
proof (cases "n = int current")
  case False
  with assms(1,2) show ?thesis by (rule determine_next_trigger_other_playable)
next
  case True
  obtain r g where rg: "rand (pcg b) 100 = (r, g)" by (cases "rand (pcg b) 100")
  let ?ts = "all_triggers b"
  from assms(1) have cur: "current < length ?ts"
    by (auto simp: determine_next_trigger_def rg Let_def split: if_splits)
  note nx = next_trigger_loop_spec [OF cur]
  note pv = prev_trigger_loop_spec [OF cur]
  have m: "m < length ?ts" "can_follow (?ts ! m)"
    using assms(6) by (simp_all add: playable_can_follow)
  have mem: "m \<in> set (next_scan_order (length ?ts) current)"
    using m assms(5) by (simp add: next_scan_order_set [OF cur])
  from find_can_follow_exists [OF mem m(2)] obtain k where
    k: "find (\<lambda>n. can_follow (?ts ! n)) (next_scan_order (length ?ts) current) = Some k" by blast
  have "m \<in> set (rev (next_scan_order (length ?ts) current))" using mem by simp
  from find_can_follow_exists [OF this m(2)] obtain k' where
    k': "find (\<lambda>n. can_follow (?ts ! n)) (rev (next_scan_order (length ?ts) current)) = Some k'" by blast
  have "m \<in> set [0..<length ?ts]" using m by simp
  from find_can_follow_exists [OF this m(2)] obtain k1 where
    k1: "find (\<lambda>n. can_follow (?ts ! n)) [0..<length ?ts] = Some k1" by blast
  have "m \<in> set (rev [0..<length ?ts])" using m by simp
  from find_can_follow_exists [OF this m(2)] obtain k2 where
    k2: "find (\<lambda>n. can_follow (?ts ! n)) (rev [0..<length ?ts]) = Some k2" by blast
  note fk = find_can_follow_Some [OF k] find_can_follow_Some [OF k'] find_can_follow_Some [OF k1]
    find_can_follow_Some [OF k2]
  show ?thesis
    using assms(1-4) cur fk
    by (auto simp: determine_next_trigger_def rg Let_def nx pv k k' k1 k2 playable_can_follow
        next_scan_order_set [OF cur]
        split: if_splits FollowAction.splits option.splits sum.splits prod.splits
        dest!: any_trigger_loop_result other_trigger_loop_result)
qed

lemma determine_next_trigger_NextTrigger:
  assumes "current < length (all_triggers b)"
    and "follow_action (all_triggers b ! current)
           (which_follow_action (fst (rand (pcg b) 100)) (all_triggers b ! current)) = NextTrigger"
    and "runnable (all_triggers b) \<noteq> 1"
  shows "determine_next_trigger rand b current =
    Some (Inr (int (case find (\<lambda>n. can_follow (all_triggers b ! n))
                         (next_scan_order (length (all_triggers b)) current) of
                      Some n \<Rightarrow> n | None \<Rightarrow> current),
               b\<lparr>pcg := snd (rand (pcg b) 100)\<rparr>))"
proof -
  obtain r g where rg: "rand (pcg b) 100 = (r, g)" by (cases "rand (pcg b) 100")
  show ?thesis
    using assms
    by (auto simp: determine_next_trigger_def rg Let_def next_trigger_loop_spec [OF assms(1)]
        split: option.splits)
qed

lemma two_clip_box_next:
  "determine_next_trigger zero_rand two_clip_box 1 = Some (Inr (3, two_clip_box))"
proof -
  have "determine_next_trigger zero_rand two_clip_box 1 =
    Some (Inr (int (case find (\<lambda>n. can_follow (all_triggers two_clip_box ! n))
                         (next_scan_order (length (all_triggers two_clip_box)) 1) of
                      Some n \<Rightarrow> n | None \<Rightarrow> 1),
               two_clip_box\<lparr>pcg := snd (zero_rand (pcg two_clip_box) 100)\<rparr>))"
    by (rule determine_next_trigger_NextTrigger)
       (simp_all add: two_clip_box_def new_TriggerBox_def default_triggers_per_box_def
         new_AudioTrigger_def on_trigger_def zero_rand_def follow_action_def
         which_follow_action_def runnable_def upt_conv_Cons)
  then show ?thesis
    by (simp add: two_clip_box_def new_TriggerBox_def default_triggers_per_box_def
         new_AudioTrigger_def on_trigger_def next_scan_order_def active_def can_follow_def
         upt_conv_Cons)
qed

lemma determine_next_trigger_again_or_single:
  assumes "determine_next_trigger rand b current = Some (Inr (n, b'))" and "0 \<le> n"
    and "follow_action (all_triggers b ! current)
           (which_follow_action (fst (rand (pcg b) 100)) (all_triggers b ! current)) = Again
         \<or> runnable (all_triggers b) = 1"
  shows "n = int current"
proof -
  obtain r g where rg: "rand (pcg b) 100 = (r, g)" by (cases "rand (pcg b) 100")
  show ?thesis
    using assms
    by (auto simp: determine_next_trigger_def rg Let_def split: if_splits)
qed

lemma determine_next_trigger_none_other:
  assumes "determine_next_trigger rand b current = Some (Inr (n, b'))" and "0 \<le> n"
    and "\<not> (\<exists>m. m \<noteq> current \<and> playable (all_triggers b) m)"
  shows "n = int current"
proof (rule ccontr)
  assume ne: "n \<noteq> int current"
  with assms(1,2) have "playable (all_triggers b) (nat n)"
    by (rule determine_next_trigger_other_playable)
  moreover from ne assms(2) have "nat n \<noteq> current" by auto
  ultimately show False using assms(3) by blast
qed

text \<open>
  Claim C5, amended. Whenever \<^verbatim>\<open>determine_next_trigger (current)\<close> returns a
  non-negative index \<open>n\<close> other than \<open>current\<close>, the trigger at \<open>n\<close> has a region and is
  not active; and \<open>n\<close> is such a trigger in every case but these, in which \<open>n\<close> is
  \<open>current\<close>: the selected follow action is \<^verbatim>\<open>Again\<close>, exactly one trigger has a
  region, or no slot other than \<open>current\<close> has a region and is not active.
\<close>

theorem determine_next_trigger_result:
  assumes "determine_next_trigger rand b current = Some (Inr (n, b'))" and "0 \<le> n"
  shows "(n \<noteq> int current \<longrightarrow> playable (all_triggers b) (nat n)) \<and>
    (follow_action (all_triggers b ! current)
       (which_follow_action (fst (rand (pcg b) 100)) (all_triggers b ! current)) \<noteq> Again
     \<and> runnable (all_triggers b) \<noteq> 1
     \<and> (\<exists>m. m \<noteq> current \<and> playable (all_triggers b) m)
     \<longrightarrow> playable (all_triggers b) (nat n)) \<and>
    (follow_action (all_triggers b ! current)
       (which_follow_action (fst (rand (pcg b) 100)) (all_triggers b ! current)) = Again
     \<or> runnable (all_triggers b) = 1
     \<or> \<not> (\<exists>m. m \<noteq> current \<and> playable (all_triggers b) m)
     \<longrightarrow> n = int current)"
  using determine_next_trigger_other_playable [OF assms]
    determine_next_trigger_candidate_playable [OF assms]
    determine_next_trigger_again_or_single [OF assms]
    determine_next_trigger_none_other [OF assms]
  by blast

theorem determine_next_trigger_result_witness:
  "determine_next_trigger zero_rand two_clip_box 1 = Some (Inr (3, two_clip_box)) \<and> (0::int) \<le> 3 \<and>
   (3::int) \<noteq> int 1 \<and> playable (all_triggers two_clip_box) (nat 3)"
  using determine_next_trigger_result [OF two_clip_box_next] two_clip_box_next
  by simp

text \<open>
  Claim C5 as stated fails on the box as constructed, where no trigger has a region:
  the follow action selected for slot 0 is \<^verbatim>\<open>NextTrigger\<close> (not \<^verbatim>\<open>Again\<close>), the
  number of triggers with a region is 0 (not 1), the scan finds no candidate and the
  call returns 0, a slot whose region is null.
\<close>

theorem determine_next_trigger_unplayable_counterexample:
  "determine_next_trigger zero_rand (new_TriggerBox AUDIO ()) 0 = Some (Inr (0, new_TriggerBox AUDIO ())) \<and>
   region (all_triggers (new_TriggerBox AUDIO ()) ! 0) = None \<and>
   follow_action (all_triggers (new_TriggerBox AUDIO ()) ! 0)
     (which_follow_action (fst (zero_rand (pcg (new_TriggerBox AUDIO ())) 100))
        (all_triggers (new_TriggerBox AUDIO ()) ! 0)) = NextTrigger \<and>
   runnable (all_triggers (new_TriggerBox AUDIO ())) = 0"
proof -
  let ?b = "new_TriggerBox AUDIO ()"
  have "determine_next_trigger zero_rand ?b 0 =
    Some (Inr (int (case find (\<lambda>n. can_follow (all_triggers ?b ! n))
                         (next_scan_order (length (all_triggers ?b)) 0) of
                      Some n \<Rightarrow> n | None \<Rightarrow> 0),
               ?b\<lparr>pcg := snd (zero_rand (pcg ?b) 100)\<rparr>))"
    by (rule determine_next_trigger_NextTrigger)
       (simp_all add: new_TriggerBox_def default_triggers_per_box_def
         new_AudioTrigger_def zero_rand_def follow_action_def
         which_follow_action_def runnable_def upt_conv_Cons)
  then show ?thesis
    by (simp add: new_TriggerBox_def default_triggers_per_box_def
         new_AudioTrigger_def next_scan_order_def active_def can_follow_def
         zero_rand_def follow_action_def which_follow_action_def runnable_def
         upt_conv_Cons)
qed

section \<open>Claims about AudioTrigger::run\<close>

lemma this_read_uint:
  fixes n :: "32 word"
  assumes "0 \<le> k" "k \<le> uint n"
  shows "uint (word_of_int k :: 32 word) = k"
proof -
  have "uint n < 2 ^ 32" using uint_lt2p [of n] by simp
  with assms have "k < 2 ^ 32" by linarith
  with assms(1) show ?thesis by (simp add: uint_word_of_int)
qed

lemma this_read_sub:
  fixes n :: "32 word"
  assumes "0 \<le> k" "k \<le> uint n"
  shows "uint (n - word_of_int k) = uint n - k"
proof -
  have u: "uint (word_of_int k :: 32 word) = k" using assms by (rule this_read_uint)
  then have "uint (word_of_int k :: 32 word) \<le> uint n" using assms by simp
  then have "uint (n - word_of_int k) = uint n - uint (word_of_int k :: 32 word)"
    by (simp add: uint_sub_lem)
  with u show ?thesis by simp
qed

lemma AudioTrigger_run_loop_state:
  assumes "AudioTrigger_run_loop b i ar nframes dest_offset = Some y"
  shows "\<forall>b'. y = Inr b' \<longrightarrow> i < length (all_triggers b) \<longrightarrow>
           state (all_triggers b ! i) \<in> {Stopping, Stopped} \<longrightarrow>
           length (all_triggers b') = length (all_triggers b) \<and>
           state (all_triggers b' ! i) \<in> {Stopping, Stopped}"
  using assms
  by (rule AudioTrigger_run_loop.raw_induct [rotated, where
        P = "\<lambda>b i ar nframes dest_offset y. \<forall>b'. y = Inr b' \<longrightarrow> i < length (all_triggers b) \<longrightarrow>
           state (all_triggers b ! i) \<in> {Stopping, Stopped} \<longrightarrow>
           length (all_triggers b') = length (all_triggers b) \<and>
           state (all_triggers b' ! i) \<in> {Stopping, Stopped}"])
     (auto simp: Let_def AudioTrigger_retrigger_def split: if_splits)


lemma peek_next_trigger_on_trigger [simp]:
  "peek_next_trigger (on_trigger b i f) = peek_next_trigger b"
  by (simp add: peek_next_trigger_def on_trigger_def split: option.splits)

lemma AudioTrigger_run_loop_unfold:
  assumes "i < length (all_triggers b)" and "nframes \<noteq> 0"
    and "n_channels ar = 0 \<or> data (all_triggers b ! i) \<noteq> []"
  shows "AudioTrigger_run_loop b i ar nframes dest_offset =
    (let t = all_triggers b ! i;
         this_read = (word_of_int (min (uint nframes) (last_sample t - read_index t)) :: 32 word);
         b1 = on_trigger b i (\<lambda>t. t\<lparr>read_index := read_index t + uint this_read\<rparr>)
     in if read_index t + uint this_read \<ge> last_sample t then
          (if launch_style t = Repeat \<or> peek_next_trigger b = Some i then
             AudioTrigger_run_loop (on_trigger b1 i AudioTrigger_retrigger) i ar
               (nframes - this_read) (dest_offset + this_read)
           else Some (Inr (on_trigger b1 i (\<lambda>t. t\<lparr>state := Stopped\<rparr>))))
        else AudioTrigger_run_loop b1 i ar (nframes - this_read) dest_offset)"
  using assms
  by (subst AudioTrigger_run_loop.simps) (auto simp: Let_def)

lemma AudioTrigger_run_loop_zero [simp]:
  "AudioTrigger_run_loop b i ar 0 dest_offset = Some (Inr b)"
  by (subst AudioTrigger_run_loop.simps) simp

lemma AudioTrigger_run_loop_short:
  assumes "i < length (all_triggers b)"
    and "n_channels ar = 0 \<or> data (all_triggers b ! i) \<noteq> []"
    and "read_index (all_triggers b ! i) + uint nframes < last_sample (all_triggers b ! i)"
  shows "\<exists>b'. AudioTrigger_run_loop b i ar nframes dest_offset = Some (Inr b')
    \<and> length (all_triggers b') = length (all_triggers b)
    \<and> state (all_triggers b' ! i) = state (all_triggers b ! i)"
proof (cases "nframes = 0")
  case True
  then show ?thesis by simp
next
  case False
  let ?t = "all_triggers b ! i"
  have m: "min (uint nframes) (last_sample ?t - read_index ?t) = uint nframes"
    using assms(3) by simp
  show ?thesis
    using assms
    by (simp add: AudioTrigger_run_loop_unfold [OF assms(1) False assms(2)] Let_def m)
qed

lemma AudioTrigger_run_loop_once:
  assumes "i < length (all_triggers b)"
    and "n_channels ar = 0 \<or> data (all_triggers b ! i) \<noteq> []"
    and "launch_style (all_triggers b ! i) \<noteq> Repeat" and "peek_next_trigger b \<noteq> Some i"
  shows "\<exists>b'. AudioTrigger_run_loop b i ar nframes dest_offset = Some (Inr b')"
proof (cases "nframes = 0")
  case True
  then show ?thesis by simp
next
  case False
  let ?t = "all_triggers b ! i"
  let ?k = "min (uint nframes) (last_sample ?t - read_index ?t)"
  let ?tr = "word_of_int ?k :: 32 word"
  show ?thesis
  proof (cases "read_index ?t + uint ?tr \<ge> last_sample ?t")
    case True
    with assms show ?thesis
      by (simp add: AudioTrigger_run_loop_unfold [OF assms(1) False assms(2)] Let_def)
  next
    case notend: False
    have "?k = uint nframes"
    proof (rule ccontr)
      assume "?k \<noteq> uint nframes"
      then have k: "?k = last_sample ?t - read_index ?t" "?k < uint nframes" by (simp_all add: min_def split: if_splits)
      show False
      proof (cases "0 \<le> ?k")
        case True
        have "?k \<le> uint nframes" by simp
        with True have "uint ?tr = ?k" by (rule this_read_uint)
        with k(1) notend show False by simp
      next
        case False
        have "0 \<le> uint ?tr" by simp
        with False k(1) notend show False by linarith
      qed
    qed
    then have "nframes - ?tr = 0" by simp
    with notend assms show ?thesis
      by (simp add: AudioTrigger_run_loop_unfold [OF assms(1) False assms(2)] Let_def)
  qed
qed

lemma this_read_unat_sub:
  fixes n :: "32 word"
  assumes "0 \<le> k" "k \<le> uint n"
  shows "unat (n - word_of_int k) = unat n - nat k"
proof -
  have "unat (n - word_of_int k) = nat (uint (n - word_of_int k))" by (rule unat_eq_nat_uint)
  also have "\<dots> = nat (uint n - k)" using this_read_sub [OF assms] by (rule arg_cong)
  also have "\<dots> = nat (uint n) - nat k" using assms by (simp add: nat_diff_distrib)
  finally show ?thesis by (simp only: unat_eq_nat_uint)
qed

lemma AudioTrigger_run_loop_cases:
  assumes "i < length (all_triggers b)" and "nframes \<noteq> 0"
    and "n_channels ar = 0 \<or> data (all_triggers b ! i) \<noteq> []"
    and "tr = word_of_int (min (uint nframes)
                (last_sample (all_triggers b ! i) - read_index (all_triggers b ! i)))"
    and "b1 = on_trigger b i (\<lambda>t. t\<lparr>read_index := read_index t + uint tr\<rparr>)"
  shows "read_index (all_triggers b ! i) + uint tr \<ge> last_sample (all_triggers b ! i) \<Longrightarrow>
         launch_style (all_triggers b ! i) = Repeat \<or> peek_next_trigger b = Some i \<Longrightarrow>
         AudioTrigger_run_loop b i ar nframes dest_offset
         = AudioTrigger_run_loop (on_trigger b1 i AudioTrigger_retrigger) i ar
             (nframes - tr) (dest_offset + tr)"
    and "read_index (all_triggers b ! i) + uint tr \<ge> last_sample (all_triggers b ! i) \<Longrightarrow>
         \<not> (launch_style (all_triggers b ! i) = Repeat \<or> peek_next_trigger b = Some i) \<Longrightarrow>
         AudioTrigger_run_loop b i ar nframes dest_offset
         = Some (Inr (on_trigger b1 i (\<lambda>t. t\<lparr>state := Stopped\<rparr>)))"
    and "\<not> read_index (all_triggers b ! i) + uint tr \<ge> last_sample (all_triggers b ! i) \<Longrightarrow>
         AudioTrigger_run_loop b i ar nframes dest_offset
         = AudioTrigger_run_loop b1 i ar (nframes - tr) dest_offset"
  unfolding assms(4,5) AudioTrigger_run_loop_unfold [OF assms(1-3), of dest_offset] Let_def
  by simp_all


lemma AudioTrigger_run_loop_returns:
  assumes "i < length (all_triggers b)"
    and "n_channels ar = 0 \<or> data (all_triggers b ! i) \<noteq> []"
    and "legato_offset (all_triggers b ! i) = 0"
    and "start_offset (all_triggers b ! i) < last_sample (all_triggers b ! i)"
    and "read_index (all_triggers b ! i) \<le> last_sample (all_triggers b ! i)"
  shows "\<exists>b'. AudioTrigger_run_loop b i ar nframes dest_offset = Some (Inr b')"
  using assms
proof (induction "2 * unat nframes
    + (if read_index (all_triggers b ! i) \<ge> last_sample (all_triggers b ! i) then 1 else 0)"
    arbitrary: b nframes dest_offset rule: less_induct)
  case less
  define t where "t = all_triggers b ! i"
  define k where "k = min (uint nframes) (last_sample t - read_index t)"
  define tr where "tr = (word_of_int k :: 32 word)"
  define b1 where "b1 = on_trigger b i (\<lambda>t. t\<lparr>read_index := read_index t + uint tr\<rparr>)"
  have tr_eq: "tr = word_of_int (min (uint nframes)
      (last_sample (all_triggers b ! i) - read_index (all_triggers b ! i)))"
    by (simp only: tr_def k_def t_def)
  have rl: "read_index t \<le> last_sample t" using less.prems(5) by (simp only: t_def)
  have sl: "start_offset t < last_sample t" using less.prems(4) by (simp only: t_def)
  have lg: "legato_offset t = 0" using less.prems(3) by (simp only: t_def)
  have k0: "0 \<le> k" using rl by (simp add: k_def)
  have kn: "k \<le> uint nframes" by (simp add: k_def)
  have utr: "uint tr = k" unfolding tr_def using k0 kn by (rule this_read_uint)
  show ?case
  proof (cases "nframes = 0")
    case True
    then show ?thesis by simp
  next
    case False
    note cs = AudioTrigger_run_loop_cases [OF less.prems(1) False less.prems(2) tr_eq b1_def,
        of dest_offset, folded t_def]
    show ?thesis
    proof (cases "read_index t + uint tr \<ge> last_sample t")
      case reached: True
      show ?thesis
      proof (cases "launch_style t = Repeat \<or> peek_next_trigger b = Some i")
        case False
        from cs(2) [OF reached False] show ?thesis by blast
      next
        case True
        define b2 where "b2 = on_trigger b1 i AudioTrigger_retrigger"
        have len: "i < length (all_triggers b1)" "i < length (all_triggers b2)"
          using less.prems(1) by (simp_all add: b1_def b2_def)
        have t1: "all_triggers b1 ! i = t\<lparr>read_index := read_index t + uint tr\<rparr>"
          using less.prems(1) by (simp add: b1_def t_def)
        have t2: "all_triggers b2 ! i = AudioTrigger_retrigger (all_triggers b1 ! i)"
          using len(1) by (simp add: b2_def)
        have f: "read_index (all_triggers b2 ! i) = start_offset t"
          "legato_offset (all_triggers b2 ! i) = 0"
          "start_offset (all_triggers b2 ! i) = start_offset t"
          "last_sample (all_triggers b2 ! i) = last_sample t"
          "data (all_triggers b2 ! i) = data t"
          using lg by (simp_all add: t2 t1 AudioTrigger_retrigger_def)
        have un: "unat (nframes - tr) = unat nframes - nat k"
          unfolding tr_def using k0 kn by (rule this_read_unat_sub)
        have "nat k \<le> nat (uint nframes)" using kn by (rule nat_mono)
        then have kle: "nat k \<le> unat nframes" by (simp only: unat_eq_nat_uint)
        have dec: "2 * unat (nframes - tr)
            + (if read_index (all_triggers b2 ! i) \<ge> last_sample (all_triggers b2 ! i) then 1 else 0)
          < 2 * unat nframes
            + (if read_index (all_triggers b ! i) \<ge> last_sample (all_triggers b ! i) then 1 else 0)"
        proof (cases "k = 0")
          case True
          with reached utr rl have "read_index t \<ge> last_sample t" by simp
          then have "read_index (all_triggers b ! i) \<ge> last_sample (all_triggers b ! i)"
            by (simp only: t_def)
          moreover have "\<not> read_index (all_triggers b2 ! i) \<ge> last_sample (all_triggers b2 ! i)"
            using sl by (simp add: f)
          ultimately show ?thesis using un by simp
        next
          case False
          with k0 have "0 < nat k" by simp
          moreover have "\<not> read_index (all_triggers b2 ! i) \<ge> last_sample (all_triggers b2 ! i)"
            using sl by (simp add: f)
          ultimately show ?thesis using un kle by simp
        qed
        have p2: "n_channels ar = 0 \<or> data (all_triggers b2 ! i) \<noteq> []"
          using less.prems(2) by (simp add: f t_def)
        have p4: "start_offset (all_triggers b2 ! i) < last_sample (all_triggers b2 ! i)"
          using sl by (simp add: f)
        have p5: "read_index (all_triggers b2 ! i) \<le> last_sample (all_triggers b2 ! i)"
          using sl by (simp add: f)
        from less.hyps [OF dec len(2) p2 f(2) p4 p5, of "dest_offset + tr"]
        obtain b' where "AudioTrigger_run_loop b2 i ar (nframes - tr) (dest_offset + tr) = Some (Inr b')"
          by blast
        with cs(1) [OF reached True] show ?thesis by (simp only: b2_def) blast
      qed
    next
      case notyet: False
      have "k = uint nframes"
      proof (rule ccontr)
        assume "k \<noteq> uint nframes"
        then have "k = last_sample t - read_index t" by (simp add: k_def min_def split: if_splits)
        with notyet utr show False by simp
      qed
      then have "tr = nframes" by (simp add: tr_def)
      then have "nframes - tr = 0" by simp
      with cs(3) [OF notyet] show ?thesis by simp
    qed
  qed
qed

text \<open>
  A box whose first trigger holds a loaded clip of 1000 samples and is in the state
  \<^verbatim>\<open>Stopping\<close>, with the read cursor at 0.
\<close>

definition stopping_box :: "unit TriggerBox" where
  "stopping_box = on_trigger (new_TriggerBox AUDIO ()) 0
     (\<lambda>t. t\<lparr>state := Stopping, region := Some (mono_region 1000), data := [[0]],
          data_length := 1000, usable_length := 1000, last_sample := 1000\<rparr>)"

text \<open>
  Claim C6. For every call of \<^verbatim>\<open>AudioTrigger::run\<close> on a trigger in the state
  \<^verbatim>\<open>Stopping\<close>: when \<^verbatim>\<open>nframes\<close> at entry is at least 64, the state is
  \<^verbatim>\<open>Stopped\<close> whenever the call returns, and the call does return when its
  assertions hold and either the trigger does not loop (it is not \<^verbatim>\<open>Repeat\<close> and not
  queued as its own successor) or its usable span is not empty and the read cursor is
  within it; when \<^verbatim>\<open>nframes\<close> is less than 64 and the read cursor stays short of
  \<^verbatim>\<open>last_sample\<close>, the call returns with the state still \<^verbatim>\<open>Stopping\<close>.
\<close>

theorem AudioTrigger_run_stopping:
  assumes "i < length (all_triggers b)" and "state (all_triggers b ! i) = Stopping"
  shows "(64 \<le> nframes \<longrightarrow>
            (\<forall>b'. AudioTrigger_run b i nframes dest_offset first = Some (Inr b')
                \<longrightarrow> state (all_triggers b' ! i) = Stopped))
    \<and> (64 \<le> nframes
         \<and> (\<exists>ar. region (all_triggers b ! i) = Some ar \<and> is_audio ar
                \<and> (n_channels ar = 0 \<or> data (all_triggers b ! i) \<noteq> []))
         \<and> (launch_style (all_triggers b ! i) \<noteq> Repeat \<and> peek_next_trigger b \<noteq> Some i
              \<or> legato_offset (all_triggers b ! i) = 0
                \<and> start_offset (all_triggers b ! i) < last_sample (all_triggers b ! i)
                \<and> read_index (all_triggers b ! i) \<le> last_sample (all_triggers b ! i))
         \<longrightarrow> (\<exists>b'. AudioTrigger_run b i nframes dest_offset first = Some (Inr b')
                \<and> state (all_triggers b' ! i) = Stopped))
    \<and> (nframes < 64
         \<and> (\<exists>ar. region (all_triggers b ! i) = Some ar \<and> is_audio ar
                \<and> (n_channels ar = 0 \<or> data (all_triggers b ! i) \<noteq> []))
         \<and> read_index (all_triggers b ! i) + uint nframes < last_sample (all_triggers b ! i)
         \<longrightarrow> (\<exists>b'. AudioTrigger_run b i nframes dest_offset first = Some (Inr b')
                \<and> state (all_triggers b' ! i) = Stopping))"
proof (intro conjI impI allI)
  fix b'
  assume n: "64 \<le> nframes" and r: "AudioTrigger_run b i nframes dest_offset first = Some (Inr b')"
  from r assms(1) obtain ar b1 where
    l: "AudioTrigger_run_loop b i ar nframes dest_offset = Some (Inr b1)"
    and b': "b' = (if state (all_triggers b1 ! i) = Stopping
                  then on_trigger b1 i (\<lambda>t. t\<lparr>state := Stopped\<rparr>) else b1)"
    using n
    by (auto simp: AudioTrigger_run_def Let_def split: option.splits if_splits sum.splits)
  from AudioTrigger_run_loop_state [OF l] assms have
    "length (all_triggers b1) = length (all_triggers b)"
    "state (all_triggers b1 ! i) \<in> {Stopping, Stopped}" by simp_all
  with b' assms(1) show "state (all_triggers b' ! i) = Stopped" by auto
next
  assume a: "64 \<le> nframes
       \<and> (\<exists>ar. region (all_triggers b ! i) = Some ar \<and> is_audio ar
              \<and> (n_channels ar = 0 \<or> data (all_triggers b ! i) \<noteq> []))
       \<and> (launch_style (all_triggers b ! i) \<noteq> Repeat \<and> peek_next_trigger b \<noteq> Some i
            \<or> legato_offset (all_triggers b ! i) = 0
              \<and> start_offset (all_triggers b ! i) < last_sample (all_triggers b ! i)
              \<and> read_index (all_triggers b ! i) \<le> last_sample (all_triggers b ! i))"
  then obtain ar where ar: "region (all_triggers b ! i) = Some ar" "is_audio ar"
    "n_channels ar = 0 \<or> data (all_triggers b ! i) \<noteq> []" by blast
  have "\<exists>b1. AudioTrigger_run_loop b i ar nframes dest_offset = Some (Inr b1)"
    using a AudioTrigger_run_loop_once [OF assms(1) ar(3)]
      AudioTrigger_run_loop_returns [OF assms(1) ar(3)] by blast
  then obtain b1 where l: "AudioTrigger_run_loop b i ar nframes dest_offset = Some (Inr b1)" ..
  from AudioTrigger_run_loop_state [OF l] assms have
    s: "length (all_triggers b1) = length (all_triggers b)"
    "state (all_triggers b1 ! i) \<in> {Stopping, Stopped}" by simp_all
  have act: "active (all_triggers b ! i)" using assms(2) by (simp add: active_def)
  from a have n: "64 \<le> nframes" by simp
  show "\<exists>b'. AudioTrigger_run b i nframes dest_offset first = Some (Inr b')
      \<and> state (all_triggers b' ! i) = Stopped"
    using assms(1) ar l s act n
    by (auto simp: AudioTrigger_run_def Let_def)
next
  assume a: "nframes < 64
       \<and> (\<exists>ar. region (all_triggers b ! i) = Some ar \<and> is_audio ar
              \<and> (n_channels ar = 0 \<or> data (all_triggers b ! i) \<noteq> []))
       \<and> read_index (all_triggers b ! i) + uint nframes < last_sample (all_triggers b ! i)"
  then obtain ar where ar: "region (all_triggers b ! i) = Some ar" "is_audio ar"
    "n_channels ar = 0 \<or> data (all_triggers b ! i) \<noteq> []" by blast
  from a have rd: "read_index (all_triggers b ! i) + uint nframes < last_sample (all_triggers b ! i)"
    by simp
  from AudioTrigger_run_loop_short [OF assms(1) ar(3) rd, of dest_offset] obtain b1 where
    l: "AudioTrigger_run_loop b i ar nframes dest_offset = Some (Inr b1)"
    and s: "length (all_triggers b1) = length (all_triggers b)"
      "state (all_triggers b1 ! i) = state (all_triggers b ! i)" by blast
  have act: "active (all_triggers b ! i)" using assms(2) by (simp add: active_def)
  from a have n: "\<not> 64 \<le> nframes" by (simp add: not_le)
  show "\<exists>b'. AudioTrigger_run b i nframes dest_offset first = Some (Inr b')
      \<and> state (all_triggers b' ! i) = Stopping"
    using assms ar l s act n
    by (auto simp: AudioTrigger_run_def Let_def)
qed

theorem AudioTrigger_run_stopping_witness:
  "0 < length (all_triggers stopping_box) \<and> state (all_triggers stopping_box ! 0) = Stopping \<and>
   (\<exists>b'. AudioTrigger_run stopping_box 0 128 0 False = Some (Inr b')
      \<and> state (all_triggers b' ! 0) = Stopped) \<and>
   (\<exists>b'. AudioTrigger_run stopping_box 0 32 0 False = Some (Inr b')
      \<and> state (all_triggers b' ! 0) = Stopping)"
proof -
  have h: "0 < length (all_triggers stopping_box)" "state (all_triggers stopping_box ! 0) = Stopping"
    by (simp_all add: stopping_box_def new_TriggerBox_def default_triggers_per_box_def on_trigger_def)
  have f: "region (all_triggers stopping_box ! 0) = Some (mono_region 1000)"
    "is_audio (mono_region 1000)" "data (all_triggers stopping_box ! 0) \<noteq> []"
    "launch_style (all_triggers stopping_box ! 0) \<noteq> Repeat"
    "peek_next_trigger stopping_box \<noteq> Some 0"
    "read_index (all_triggers stopping_box ! 0) = 0"
    "last_sample (all_triggers stopping_box ! 0) = 1000"
    by (simp_all add: stopping_box_def new_TriggerBox_def default_triggers_per_box_def on_trigger_def
        new_AudioTrigger_def mono_region_def peek_next_trigger_def rb_peek_def RingBuffer_def)
  from AudioTrigger_run_stopping [OF h, of 128 0 False] AudioTrigger_run_stopping [OF h, of 32 0 False]
    h f show ?thesis by simp
qed

section \<open>Claims about TriggerBox::run\<close>

text \<open>
  A stand-in for the temporal library, for concrete calls: a beat is 1920 ticks, a
  sample is a tick and every position is on the grid.
\<close>

definition plain_tempo :: Temporal where
  "plain_tempo = \<lparr>Beats = (\<lambda>b t. b * 1920 + t), snap_to = (\<lambda>s q. s), samples = (\<lambda>x. x),
     beats_at = (\<lambda>x. x)\<rparr>"

text \<open>
  Claim C8. Every call of \<^verbatim>\<open>TriggerBox::run\<close> with \<^verbatim>\<open>start_sample < 0\<close> returns
  at once with the box as it was: every trigger with its state, counters and requested
  state, both launch queues and \<^verbatim>\<open>currently_playing\<close>, whatever the MIDI buffers hold.
\<close>

theorem TriggerBox_run_negative_start:
  "start_sample < 0 \<Longrightarrow>
   TriggerBox_run tm rand b bufs start_sample end_sample nframes = Some (Inr b)"
  by (simp add: TriggerBox_run_def)

theorem TriggerBox_run_negative_start_witness:
  "(- 1 :: int) < 0 \<and>
   bang (all_triggers pending_box ! 0) = 2 \<and>
   TriggerBox_run plain_tempo zero_rand pending_box [[note_on 60]] (- 1) 1023 1024 = Some (Inr pending_box)"
  using TriggerBox_run_negative_start [of "- 1" plain_tempo zero_rand pending_box "[[note_on 60]]" 1023 1024]
  by (simp add: pending_box_def new_TriggerBox_def default_triggers_per_box_def on_trigger_def)

section \<open>Claims about maybe_compute_next_transition\<close>

lemma any_trigger_loop_fault:
  assumes "any_trigger_loop rand ts g = Some y"
  shows "\<forall>e. y = Inl e \<longrightarrow>
    (\<exists>g. fst (rand g (int (length ts))) < 0 \<or> fst (rand g (int (length ts))) \<ge> int (length ts))"
  using assms
  by (rule any_trigger_loop.raw_induct [rotated, where
        P = "\<lambda>rand ts g y. \<forall>e. y = Inl e \<longrightarrow>
    (\<exists>g. fst (rand g (int (length ts))) < 0 \<or> fst (rand g (int (length ts))) \<ge> int (length ts))"])
     (auto split: prod.splits if_splits, (metis fst_conv)+)

lemma any_trigger_loop_no_candidate:
  assumes "\<forall>g. 0 \<le> fst (rand g (int (length ts))) \<and> fst (rand g (int (length ts))) < int (length ts)"
    and "\<forall>t \<in> set ts. \<not> can_follow t"
  shows "any_trigger_loop rand ts g = None"
proof (cases "any_trigger_loop rand ts g")
  case None
  then show ?thesis .
next
  case (Some y)
  show ?thesis
  proof (cases y)
    case (Inl e)
    with any_trigger_loop_fault [OF Some] obtain ga where
      "fst (rand ga (int (length ts))) < 0 \<or> fst (rand ga (int (length ts))) \<ge> int (length ts)"
      by blast
    with assms(1) [rule_format, of ga] show ?thesis by linarith
  next
    case (Inr p)
    obtain n g' where "p = (n, g')" by (cases p)
    with any_trigger_loop_result [OF Some] Inr have "n < length ts" "can_follow (ts ! n)" by simp_all
    with assms(2) show ?thesis by (auto dest: nth_mem)
  qed
qed

lemma determine_next_trigger_AnyTrigger_None:
  assumes "current < length (all_triggers b)"
    and "follow_action (all_triggers b ! current)
           (which_follow_action (fst (rand (pcg b) 100)) (all_triggers b ! current)) = AnyTrigger"
    and "runnable (all_triggers b) \<noteq> 1"
    and "any_trigger_loop rand (all_triggers b) (snd (rand (pcg b) 100)) = None"
  shows "determine_next_trigger rand b current = None"
proof -
  obtain r g where rg: "rand (pcg b) 100 = (r, g)" by (cases "rand (pcg b) 100")
  show ?thesis
    using assms by (simp add: determine_next_trigger_def rg Let_def)
qed

text \<open>
  What \<^verbatim>\<open>maybe_compute_next_transition\<close> does to a waiting trigger whose transition
  falls into the block, before it asks the box for the next trigger.
\<close>

definition start_transition :: "Temporal \<Rightarrow> 'g TriggerBox \<Rightarrow> nat \<Rightarrow> int \<Rightarrow> 'g TriggerBox" where
  "start_transition tm b i ev_time =
     on_trigger (on_trigger (on_trigger b i
        (\<lambda>t. t\<lparr>bang_samples := samples tm ev_time, bang_beats := ev_time\<rparr>))
        i AudioTrigger_retrigger) i (\<lambda>t. t\<lparr>state := Running\<rparr>)"

lemma maybe_compute_next_transition_start:
  assumes "i < length (all_triggers b)"
    and "state (all_triggers b ! i) = WaitingToStart \<or> state (all_triggers b ! i) = WaitingForRetrigger"
    and "bars (quantization (all_triggers b ! i)) = 0"
    and "ev = snap_to tm start (Beats tm (beats (quantization (all_triggers b ! i)))
                (ticks (quantization (all_triggers b ! i))))"
    and "start \<le> ev" and "ev < end'"
  shows "maybe_compute_next_transition tm rand b i start end' =
    (case prepare_next rand (start_transition tm b i ev)
            (index (all_triggers (start_transition tm b i ev) ! i)) of
       None \<Rightarrow> None
     | Some (Inl e) \<Rightarrow> Some (Inl e)
     | Some (Inr b') \<Rightarrow>
         Some (Inr (if state (all_triggers b ! i) = WaitingToStart then RunStart else RunAll, b')))"
  using assms
  by (auto simp: maybe_compute_next_transition_def start_transition_def Let_def
      split: option.splits sum.splits)

lemma determine_next_trigger_all_triggers:
  assumes "determine_next_trigger rand b current = Some (Inr (n, b'))"
  shows "all_triggers b' = all_triggers b"
proof -
  obtain r g where rg: "rand (pcg b) 100 = (r, g)" by (cases "rand (pcg b) 100")
  show ?thesis
    using assms
    by (auto simp: determine_next_trigger_def rg Let_def
        split: if_splits FollowAction.splits option.splits sum.splits prod.splits)
qed

lemma prepare_next_all_triggers:
  assumes "prepare_next rand b current = Some (Inr b')"
  shows "all_triggers b' = all_triggers b"
  using assms
  by (auto simp: prepare_next_def queue_implicit_def
      split: option.splits sum.splits prod.splits if_splits
      dest: determine_next_trigger_all_triggers)

text \<open>
  The rest of what claim C1 says holds: the results in the states that do not wait, the
  stop transition, the block without a transition, and for the two start transitions
  the result, the state and the read cursor of every call that returns.
\<close>

lemma maybe_compute_next_transition_idle:
  assumes "i < length (all_triggers b)"
  shows "state (all_triggers b ! i) = Stopped \<Longrightarrow>
           maybe_compute_next_transition tm rand b i start end' = Some (Inr (RunNone, b))"
    and "state (all_triggers b ! i) = Running \<or> state (all_triggers b ! i) = Stopping \<Longrightarrow>
           maybe_compute_next_transition tm rand b i start end' = Some (Inr (RunAll, b))"
  using assms by (auto simp: maybe_compute_next_transition_def Let_def)

lemma maybe_compute_next_transition_stop:
  assumes "i < length (all_triggers b)" and "state (all_triggers b ! i) = WaitingToStop"
    and "bars (quantization (all_triggers b ! i)) = 0"
    and "ev = snap_to tm start (Beats tm (beats (quantization (all_triggers b ! i)))
                (ticks (quantization (all_triggers b ! i))))"
    and "start \<le> ev" and "ev < end'"
  shows "\<exists>b'. maybe_compute_next_transition tm rand b i start end' = Some (Inr (RunEnd, b'))
        \<and> state (all_triggers b' ! i) = Stopping"
  using assms by (simp add: maybe_compute_next_transition_def Let_def)

lemma maybe_compute_next_transition_later:
  assumes "i < length (all_triggers b)"
    and "bars (quantization (all_triggers b ! i)) = 0"
    and "ev = snap_to tm start (Beats tm (beats (quantization (all_triggers b ! i)))
                (ticks (quantization (all_triggers b ! i))))"
    and "\<not> (start \<le> ev \<and> ev < end')"
  shows "state (all_triggers b ! i) = WaitingForRetrigger \<or> state (all_triggers b ! i) = WaitingToStop
           \<Longrightarrow> maybe_compute_next_transition tm rand b i start end' = Some (Inr (RunAll, b))"
    and "state (all_triggers b ! i) = WaitingToStart
           \<Longrightarrow> maybe_compute_next_transition tm rand b i start end' = Some (Inr (RunNone, b))"
  using assms by (auto simp: maybe_compute_next_transition_def Let_def)

lemma maybe_compute_next_transition_started:
  assumes "i < length (all_triggers b)"
    and "state (all_triggers b ! i) = WaitingToStart \<or> state (all_triggers b ! i) = WaitingForRetrigger"
    and "bars (quantization (all_triggers b ! i)) = 0"
    and "ev = snap_to tm start (Beats tm (beats (quantization (all_triggers b ! i)))
                (ticks (quantization (all_triggers b ! i))))"
    and "start \<le> ev" and "ev < end'"
    and "maybe_compute_next_transition tm rand b i start end' = Some (Inr (rt, b'))"
  shows "rt = (if state (all_triggers b ! i) = WaitingToStart then RunStart else RunAll)"
    and "state (all_triggers b' ! i) = Running"
    and "read_index (all_triggers b' ! i)
         = start_offset (all_triggers b ! i) + legato_offset (all_triggers b ! i)"
    and "legato_offset (all_triggers b' ! i) = 0"
proof -
  let ?b2 = "start_transition tm b i ev"
  from assms(7) have r: "rt = (if state (all_triggers b ! i) = WaitingToStart then RunStart else RunAll)
      \<and> all_triggers b' = all_triggers ?b2"
    unfolding maybe_compute_next_transition_start [OF assms(1-6)]
    by (auto split: option.splits sum.splits dest: prepare_next_all_triggers)
  then show "rt = (if state (all_triggers b ! i) = WaitingToStart then RunStart else RunAll)" ..
  from r have e: "all_triggers b' ! i = all_triggers ?b2 ! i" by simp
  show "state (all_triggers b' ! i) = Running"
    "read_index (all_triggers b' ! i)
         = start_offset (all_triggers b ! i) + legato_offset (all_triggers b ! i)"
    "legato_offset (all_triggers b' ! i) = 0"
    unfolding e using assms(1) by (simp_all add: start_transition_def AudioTrigger_retrigger_def)
qed


text \<open>
  The selection of the next trigger returns for every follow action but
  \<^verbatim>\<open>AnyTrigger\<close> and \<^verbatim>\<open>OtherTrigger\<close>, and with it the start transitions.
\<close>

lemma determine_next_trigger_returns:
  assumes "current < length (all_triggers b)"
    and "follow_action (all_triggers b ! current)
           (which_follow_action (fst (rand (pcg b) 100)) (all_triggers b ! current)) \<noteq> AnyTrigger"
    and "follow_action (all_triggers b ! current)
           (which_follow_action (fst (rand (pcg b) 100)) (all_triggers b ! current)) \<noteq> OtherTrigger"
  shows "\<exists>n b'. determine_next_trigger rand b current = Some (Inr (n, b'))
           \<and> (n < 0 \<or> nat n < length (all_triggers b))"
proof -
  obtain r g where rg: "rand (pcg b) 100 = (r, g)" by (cases "rand (pcg b) 100")
  let ?ts = "all_triggers b"
  let ?fa = "follow_action (?ts ! current) (which_follow_action r (?ts ! current))"
  note nx = next_trigger_loop_spec [OF assms(1)]
  note pv = prev_trigger_loop_spec [OF assms(1)]
  note st = next_scan_order_set [OF assms(1)]
  have fa: "?fa \<noteq> AnyTrigger" "?fa \<noteq> OtherTrigger" using assms(2,3) by (simp_all add: rg)
  show ?thesis
  proof (cases "?fa = Stop \<or> ?fa = QueuedTrigger \<or> runnable ?ts = 1")
    case True
    with assms(1) show ?thesis
      by (auto simp: determine_next_trigger_def rg Let_def)
  next
    case False
    show ?thesis
    proof (cases ?fa)
      case NextTrigger
      with False assms(1) show ?thesis
        by (auto simp: determine_next_trigger_def rg Let_def nx st
            split: option.splits dest!: find_can_follow_Some)
    next
      case PrevTrigger
      with False assms(1) show ?thesis
        by (auto simp: determine_next_trigger_def rg Let_def pv st
            split: option.splits dest!: find_can_follow_Some)
    next
      case FirstTrigger
      with False assms(1) show ?thesis
        by (auto simp: determine_next_trigger_def rg Let_def
            split: option.splits dest!: find_can_follow_Some)
    next
      case LastTrigger
      with False assms(1) show ?thesis
        by (auto simp: determine_next_trigger_def rg Let_def
            split: option.splits dest!: find_can_follow_Some)
    next
      case Again
      with False assms(1) show ?thesis
        by (auto simp: determine_next_trigger_def rg Let_def)
    qed (use False fa in simp_all)
  qed
qed

lemma prepare_next_returns:
  assumes "current < length (all_triggers b)"
    and "follow_action (all_triggers b ! current)
           (which_follow_action (fst (rand (pcg b) 100)) (all_triggers b ! current)) \<noteq> AnyTrigger"
    and "follow_action (all_triggers b ! current)
           (which_follow_action (fst (rand (pcg b) 100)) (all_triggers b ! current)) \<noteq> OtherTrigger"
  shows "\<exists>b'. prepare_next rand b current = Some (Inr b')"
proof -
  from determine_next_trigger_returns [of current b rand, OF assms] obtain n b1 where
    d: "determine_next_trigger rand b current = Some (Inr (n, b1))"
    and n: "n < 0 \<or> nat n < length (all_triggers b)" by blast
  from determine_next_trigger_all_triggers [OF d] have "all_triggers b1 = all_triggers b" .
  with d n show ?thesis by (auto simp: prepare_next_def)
qed


lemma maybe_compute_next_transition_start_returns:
  assumes "i < length (all_triggers b)"
    and "state (all_triggers b ! i) = WaitingToStart \<or> state (all_triggers b ! i) = WaitingForRetrigger"
    and "bars (quantization (all_triggers b ! i)) = 0"
    and "ev = snap_to tm start (Beats tm (beats (quantization (all_triggers b ! i)))
                (ticks (quantization (all_triggers b ! i))))"
    and "start \<le> ev" and "ev < end'"
    and "index (all_triggers b ! i) = i"
    and "follow_action (all_triggers b ! i)
           (which_follow_action (fst (rand (pcg b) 100)) (all_triggers b ! i)) \<noteq> AnyTrigger"
    and "follow_action (all_triggers b ! i)
           (which_follow_action (fst (rand (pcg b) 100)) (all_triggers b ! i)) \<noteq> OtherTrigger"
  shows "\<exists>b'. maybe_compute_next_transition tm rand b i start end'
           = Some (Inr (if state (all_triggers b ! i) = WaitingToStart then RunStart else RunAll, b'))"
proof -
  let ?b2 = "start_transition tm b i ev"
  have l: "i < length (all_triggers ?b2)" using assms(1) by (simp add: start_transition_def)
  have p: "pcg ?b2 = pcg b" by (simp add: start_transition_def on_trigger_def)
  have f: "follow_action (all_triggers ?b2 ! i) n = follow_action (all_triggers b ! i) n"
    "which_follow_action r (all_triggers ?b2 ! i) = which_follow_action r (all_triggers b ! i)"
    "index (all_triggers ?b2 ! i) = i" for n r
    using assms(1,7)
    by (simp_all add: start_transition_def AudioTrigger_retrigger_def follow_action_def
        which_follow_action_def)
  have "\<exists>b'. prepare_next rand ?b2 i = Some (Inr b')"
    using l assms(8,9) by (intro prepare_next_returns) (simp_all add: p f)
  then obtain b' where "prepare_next rand ?b2 (index (all_triggers ?b2 ! i)) = Some (Inr b')"
    by (auto simp: f)
  then show ?thesis
    unfolding maybe_compute_next_transition_start [OF assms(1-6)] by simp
qed

text \<open>
  The box as constructed (no trigger has a region) whose first trigger follows with
  \<^verbatim>\<open>AnyTrigger\<close> and is waiting to start.
\<close>

definition hang_box :: "unit TriggerBox" where
  "hang_box = on_trigger (new_TriggerBox AUDIO ()) 0
     (\<lambda>t. t\<lparr>state := WaitingToStart, follow_action_0 := AnyTrigger\<rparr>)"

text \<open>
  Claim C1 at a failing input. The trigger is in \<^verbatim>\<open>WaitingToStart\<close>, its quantization
  has no bars and the snapped time 0 lies in the block from 0 to 10, so the claim
  promises the result \<^verbatim>\<open>RunStart\<close>. The call sets the state to \<^verbatim>\<open>Running\<close> and
  asks the box for the next trigger; the loop of \<^verbatim>\<open>AnyTrigger\<close> finds no slot with a
  region and never ends, so the call does not return.
\<close>

theorem maybe_compute_next_transition_hangs:
  "state (all_triggers hang_box ! 0) = WaitingToStart \<and>
   bars (quantization (all_triggers hang_box ! 0)) = 0 \<and>
   snap_to plain_tempo 0 (Beats plain_tempo (beats (quantization (all_triggers hang_box ! 0)))
      (ticks (quantization (all_triggers hang_box ! 0)))) = 0 \<and>
   maybe_compute_next_transition plain_tempo zero_rand hang_box 0 0 10 = None"
proof -
  let ?b2 = "start_transition plain_tempo hang_box 0 0"
  have len0: "length (all_triggers hang_box) = 8"
    by (simp add: hang_box_def new_TriggerBox_def default_triggers_per_box_def)
  have len: "length (all_triggers ?b2) = 8"
    by (simp add: start_transition_def len0)
  have none: "\<forall>t \<in> set (all_triggers ?b2). \<not> can_follow t"
    by (simp add: start_transition_def hang_box_def new_TriggerBox_def default_triggers_per_box_def
        on_trigger_def new_AudioTrigger_def can_follow_def AudioTrigger_retrigger_def upt_conv_Cons)
  have rng: "\<forall>g. 0 \<le> fst (zero_rand g (int (length (all_triggers ?b2))))
      \<and> fst (zero_rand g (int (length (all_triggers ?b2)))) < int (length (all_triggers ?b2))"
    unfolding len by (simp add: zero_rand_def)
  have loop: "any_trigger_loop zero_rand (all_triggers ?b2) (snd (zero_rand (pcg ?b2) 100)) = None"
    using rng none by (rule any_trigger_loop_no_candidate)
  have c: "0 < length (all_triggers ?b2)" by (simp only: len)
  have fa: "follow_action (all_triggers ?b2 ! 0)
      (which_follow_action (fst (zero_rand (pcg ?b2) 100)) (all_triggers ?b2 ! 0)) = AnyTrigger"
    by (simp add: start_transition_def hang_box_def new_TriggerBox_def default_triggers_per_box_def
        on_trigger_def new_AudioTrigger_def AudioTrigger_retrigger_def follow_action_def
        which_follow_action_def zero_rand_def upt_conv_Cons)
  have rn: "runnable (all_triggers ?b2) \<noteq> 1"
    by (simp add: start_transition_def hang_box_def new_TriggerBox_def default_triggers_per_box_def
        on_trigger_def new_AudioTrigger_def AudioTrigger_retrigger_def runnable_def upt_conv_Cons)
  have ix: "index (all_triggers ?b2 ! 0) = 0"
    by (simp add: start_transition_def hang_box_def new_TriggerBox_def default_triggers_per_box_def
        on_trigger_def new_AudioTrigger_def AudioTrigger_retrigger_def upt_conv_Cons)
  have dnt: "determine_next_trigger zero_rand ?b2 0 = None"
    using c fa rn loop by (rule determine_next_trigger_AnyTrigger_None)
  have pn: "prepare_next zero_rand ?b2 (index (all_triggers ?b2 ! 0)) = None"
    by (simp only: ix prepare_next_def dnt option.case)
  have s: "state (all_triggers hang_box ! 0) = WaitingToStart"
    "bars (quantization (all_triggers hang_box ! 0)) = 0"
    "snap_to plain_tempo 0 (Beats plain_tempo (beats (quantization (all_triggers hang_box ! 0)))
      (ticks (quantization (all_triggers hang_box ! 0)))) = 0"
    by (simp_all add: hang_box_def new_TriggerBox_def default_triggers_per_box_def on_trigger_def
        new_AudioTrigger_def plain_tempo_def upt_conv_Cons)
  have c0: "0 < length (all_triggers hang_box)" by (simp only: len0)
  have "maybe_compute_next_transition plain_tempo zero_rand hang_box 0 0 10 =
    (case prepare_next zero_rand ?b2 (index (all_triggers ?b2 ! 0)) of
       None \<Rightarrow> None
     | Some (Inl e) \<Rightarrow> Some (Inl e)
     | Some (Inr b') \<Rightarrow>
         Some (Inr (if state (all_triggers hang_box ! 0) = WaitingToStart then RunStart else RunAll, b')))"
    by (rule maybe_compute_next_transition_start [OF c0 disjI1 [OF s(1)] s(2) s(3) [symmetric]]) simp_all
  then have "maybe_compute_next_transition plain_tempo zero_rand hang_box 0 0 10 = None"
    by (simp only: pn option.case)
  with s show ?thesis by (intro conjI)
qed

end
